theory Spec2Isabelle
  imports Main "HOL-Library.Word" "HOL-Library.Sublist"
begin

section \<open>JavaScript strings\<close>

text \<open>
  A JavaScript string is a sequence of 16-bit code units. The service module
  \<^verbatim>\<open>src/services/geminiService.ts\<close> works on such strings with
  \<^verbatim>\<open>String.prototype.trim\<close>, \<^verbatim>\<open>String.prototype.match\<close>,
  \<^verbatim>\<open>String.prototype.split\<close> and \<^verbatim>\<open>JSON.parse\<close>.
\<close>

type_synonym code_unit = "16 word"
type_synonym jsstring = "code_unit list"

text \<open>An ASCII literal as a JavaScript string.\<close>

definition js :: "string \<Rightarrow> jsstring" where
  "js s = map (\<lambda>c. of_nat (of_char c)) s"

definition LF :: code_unit where "LF = 0x0A"
definition COMMA :: code_unit where "COMMA = 0x2C"

text \<open>
  \<^verbatim>\<open>text.trim()\<close> removes, at both ends, the code units of the ECMAScript
  productions WhiteSpace and LineTerminator.
\<close>

definition is_whitespace :: "code_unit \<Rightarrow> bool" where
  "is_whitespace c \<longleftrightarrow>
     c = 0x09 \<or> c = 0x0A \<or> c = 0x0B \<or> c = 0x0C \<or> c = 0x0D \<or> c = 0x20 \<or> c = 0xA0
     \<or> c = 0x1680 \<or> (0x2000 \<le> c \<and> c \<le> 0x200A) \<or> c = 0x2028 \<or> c = 0x2029
     \<or> c = 0x202F \<or> c = 0x205F \<or> c = 0x3000 \<or> c = 0xFEFF"

definition trim :: "jsstring \<Rightarrow> jsstring" where
  "trim s = rev (dropWhile is_whitespace (rev (dropWhile is_whitespace s)))"

text \<open>
  \<^verbatim>\<open>s.split(',')\<close>: the pieces of \<open>s\<close> between the separators, and
  \<^verbatim>\<open>a[i]\<close> on an array, which is \<^verbatim>\<open>undefined\<close> (here \<open>None\<close>) out of range.
\<close>

fun split :: "code_unit \<Rightarrow> jsstring \<Rightarrow> jsstring list" where
  "split sep [] = [[]]"
| "split sep (c # cs) =
     (if c = sep then [] # split sep cs
      else (let r = split sep cs in (c # hd r) # tl r))"

definition index :: "'a list \<Rightarrow> nat \<Rightarrow> 'a option" where
  "index xs i = (if i < length xs then Some (xs ! i) else None)"

text \<open>
  \<open>search pat s\<close> finds the leftmost occurrence of \<open>pat\<close> in \<open>s\<close> and returns
  what stands before it and what stands after it.
\<close>

fun search :: "jsstring \<Rightarrow> jsstring \<Rightarrow> (jsstring \<times> jsstring) option" where
  "search pat [] = (if pat = [] then Some ([], []) else None)"
| "search pat (c # cs) =
     (if prefix pat (c # cs) then Some ([], drop (length pat) (c # cs))
      else (case search pat cs of
              None \<Rightarrow> None
            | Some (before, after) \<Rightarrow> Some (c # before, after)))"

section \<open>JSON.parse\<close>

text \<open>
  \<^verbatim>\<open>JSON.parse\<close> is a built-in of the platform. It is modelled after the JSON
  grammar of ECMA-262 (24.5.1) in two passes over the text: a scanner that is a finite
  automaton over the code units and yields the tokens, and a pushdown automaton over
  the tokens that builds the value. A text the grammar rejects (SyntaxError) is \<open>None\<close>.

  A number keeps its literal: the IEEE-754 double it denotes is a function of the literal.
  An object is the list of its members in order of first appearance; a repeated key
  overwrites the earlier value. (The order in which JavaScript enumerates the keys of
  an object plays no part here.)
\<close>

datatype json =
    JNull
  | JBool bool
  | JNumber jsstring
  | JString jsstring
  | JArray "json list"
  | JObject "(jsstring \<times> json) list"

datatype token =
    TLBracket | TRBracket | TLBrace | TRBrace | TComma | TColon
  | TString jsstring | TNumber jsstring | TTrue | TFalse | TNull

subsection \<open>The scanner\<close>

datatype num_state = NMinus | NZero | NInt | NDot | NFrac | NE | NESign | NExp

datatype lex_mode =
    LOut                                \<comment> \<open>between two tokens\<close>
  | LStr jsstring                       \<comment> \<open>inside a string, its value so far\<close>
  | LEsc jsstring                       \<comment> \<open>after a backslash inside a string\<close>
  | LUni jsstring "code_unit list"      \<comment> \<open>after \<^verbatim>\<open>\u\<close>, the hexadecimal digits so far\<close>
  | LNum num_state jsstring             \<comment> \<open>inside a number, its literal so far\<close>
  | LLit token jsstring                 \<comment> \<open>inside true, false or null, the letters to come\<close>

type_synonym lex_state = "lex_mode \<times> token list"

definition is_digit :: "code_unit \<Rightarrow> bool" where
  "is_digit c \<longleftrightarrow> 0x30 \<le> c \<and> c \<le> 0x39"

definition is_json_ws :: "code_unit \<Rightarrow> bool" where
  "is_json_ws c \<longleftrightarrow> c = 0x20 \<or> c = 0x09 \<or> c = 0x0A \<or> c = 0x0D"

definition hex_val :: "code_unit \<Rightarrow> code_unit option" where
  "hex_val c =
     (if 0x30 \<le> c \<and> c \<le> 0x39 then Some (c - 0x30)
      else if 0x41 \<le> c \<and> c \<le> 0x46 then Some (c - 0x37)
      else if 0x61 \<le> c \<and> c \<le> 0x66 then Some (c - 0x57)
      else None)"

definition escape :: "code_unit \<Rightarrow> code_unit option" where
  "escape c =
     (if c = 0x22 then Some 0x22
      else if c = 0x5C then Some 0x5C
      else if c = 0x2F then Some 0x2F
      else if c = 0x62 then Some 0x08
      else if c = 0x66 then Some 0x0C
      else if c = 0x6E then Some 0x0A
      else if c = 0x72 then Some 0x0D
      else if c = 0x74 then Some 0x09
      else None)"

fun num_step :: "num_state \<Rightarrow> code_unit \<Rightarrow> num_state option" where
  "num_step NMinus c = (if c = 0x30 then Some NZero else if is_digit c then Some NInt else None)"
| "num_step NZero c =
     (if c = 0x2E then Some NDot else if c = 0x65 \<or> c = 0x45 then Some NE else None)"
| "num_step NInt c =
     (if is_digit c then Some NInt else if c = 0x2E then Some NDot
      else if c = 0x65 \<or> c = 0x45 then Some NE else None)"
| "num_step NDot c = (if is_digit c then Some NFrac else None)"
| "num_step NFrac c =
     (if is_digit c then Some NFrac else if c = 0x65 \<or> c = 0x45 then Some NE else None)"
| "num_step NE c =
     (if c = 0x2B \<or> c = 0x2D then Some NESign else if is_digit c then Some NExp else None)"
| "num_step NESign c = (if is_digit c then Some NExp else None)"
| "num_step NExp c = (if is_digit c then Some NExp else None)"

fun num_final :: "num_state \<Rightarrow> bool" where
  "num_final NZero = True"
| "num_final NInt = True"
| "num_final NFrac = True"
| "num_final NExp = True"
| "num_final _ = False"

text \<open>A code unit met between two tokens.\<close>

definition lex_out :: "token list \<Rightarrow> code_unit \<Rightarrow> lex_state option" where
  "lex_out ts c =
     (if is_json_ws c then Some (LOut, ts)
      else if c = 0x5B then Some (LOut, ts @ [TLBracket])
      else if c = 0x5D then Some (LOut, ts @ [TRBracket])
      else if c = 0x7B then Some (LOut, ts @ [TLBrace])
      else if c = 0x7D then Some (LOut, ts @ [TRBrace])
      else if c = 0x2C then Some (LOut, ts @ [TComma])
      else if c = 0x3A then Some (LOut, ts @ [TColon])
      else if c = 0x22 then Some (LStr [], ts)
      else if c = 0x2D then Some (LNum NMinus [c], ts)
      else if c = 0x30 then Some (LNum NZero [c], ts)
      else if is_digit c then Some (LNum NInt [c], ts)
      else if c = 0x74 then Some (LLit TTrue (js ''rue''), ts)
      else if c = 0x66 then Some (LLit TFalse (js ''alse''), ts)
      else if c = 0x6E then Some (LLit TNull (js ''ull''), ts)
      else None)"

fun lex_step :: "lex_state \<Rightarrow> code_unit \<Rightarrow> lex_state option" where
  "lex_step (LOut, ts) c = lex_out ts c"
| "lex_step (LStr s, ts) c =
     (if c = 0x22 then Some (LOut, ts @ [TString s])
      else if c = 0x5C then Some (LEsc s, ts)
      else if c < 0x20 then None
      else Some (LStr (s @ [c]), ts))"
| "lex_step (LEsc s, ts) c =
     (case escape c of
        Some d \<Rightarrow> Some (LStr (s @ [d]), ts)
      | None \<Rightarrow> if c = 0x75 then Some (LUni s [], ts) else None)"
| "lex_step (LUni s hs, ts) c =
     (case hex_val c of
        None \<Rightarrow> None
      | Some h \<Rightarrow>
          if length hs = 3
          then Some (LStr (s @ [foldl (\<lambda>a d. a * 16 + d) 0 (hs @ [h])]), ts)
          else Some (LUni s (hs @ [h]), ts))"
| "lex_step (LNum ns lit, ts) c =
     (case num_step ns c of
        Some ns' \<Rightarrow> Some (LNum ns' (lit @ [c]), ts)
      | None \<Rightarrow> if num_final ns then lex_out (ts @ [TNumber lit]) c else None)"
| "lex_step (LLit tok [], ts) c = None"
| "lex_step (LLit tok (x # xs), ts) c =
     (if c \<noteq> x then None
      else if xs = [] then Some (LOut, ts @ [tok])
      else Some (LLit tok xs, ts))"

primrec scan :: "lex_state \<Rightarrow> jsstring \<Rightarrow> lex_state option" where
  "scan st [] = Some st"
| "scan st (c # cs) = (case lex_step st c of None \<Rightarrow> None | Some st' \<Rightarrow> scan st' cs)"

text \<open>The end of the text: a number may end there, a string or a literal may not.\<close>

fun lex_finish :: "lex_state \<Rightarrow> token list option" where
  "lex_finish (LOut, ts) = Some ts"
| "lex_finish (LNum ns lit, ts) = (if num_final ns then Some (ts @ [TNumber lit]) else None)"
| "lex_finish (_, ts) = None"

definition tokenize :: "jsstring \<Rightarrow> token list option" where
  "tokenize text = (case scan (LOut, []) text of None \<Rightarrow> None | Some st \<Rightarrow> lex_finish st)"

subsection \<open>The parser\<close>

datatype frame =
    FArray "json list"                                  \<comment> \<open>an open array, its elements so far\<close>
  | FObject "(jsstring \<times> json) list" "jsstring option"  \<comment> \<open>an open object, its members so far, the key read\<close>

datatype parse_mode =
    PValue          \<comment> \<open>a value must start\<close>
  | PValueOrEnd     \<comment> \<open>after \<^verbatim>\<open>[\<close>: a value or \<^verbatim>\<open>]\<close>\<close>
  | PAfterElement   \<comment> \<open>after an element: a comma or \<^verbatim>\<open>]\<close>\<close>
  | PKeyOrEnd       \<comment> \<open>after \<^verbatim>\<open>{\<close>: a key or \<^verbatim>\<open>}\<close>\<close>
  | PKey            \<comment> \<open>after a comma in an object: a key\<close>
  | PColon          \<comment> \<open>after a key\<close>
  | PAfterMember    \<comment> \<open>after a member: a comma or \<^verbatim>\<open>}\<close>\<close>
  | PDone json      \<comment> \<open>the whole value has been read\<close>

type_synonym parse_state = "parse_mode \<times> frame list"

fun set_property :: "jsstring \<Rightarrow> json \<Rightarrow> (jsstring \<times> json) list \<Rightarrow> (jsstring \<times> json) list" where
  "set_property k v [] = [(k, v)]"
| "set_property k v ((k', v') # ms) =
     (if k = k' then (k, v) # ms else (k', v') # set_property k v ms)"

text \<open>A complete value goes to the innermost open array or object.\<close>

fun deliver :: "json \<Rightarrow> frame list \<Rightarrow> parse_state option" where
  "deliver v [] = Some (PDone v, [])"
| "deliver v (FArray xs # stack) = Some (PAfterElement, FArray (xs @ [v]) # stack)"
| "deliver v (FObject ms (Some k) # stack) =
     Some (PAfterMember, FObject (set_property k v ms) None # stack)"
| "deliver v (FObject ms None # stack) = None"

fun start_value :: "token \<Rightarrow> frame list \<Rightarrow> parse_state option" where
  "start_value TLBracket stack = Some (PValueOrEnd, FArray [] # stack)"
| "start_value TLBrace stack = Some (PKeyOrEnd, FObject [] None # stack)"
| "start_value (TString s) stack = deliver (JString s) stack"
| "start_value (TNumber n) stack = deliver (JNumber n) stack"
| "start_value TTrue stack = deliver (JBool True) stack"
| "start_value TFalse stack = deliver (JBool False) stack"
| "start_value TNull stack = deliver JNull stack"
| "start_value _ stack = None"

fun close_array :: "frame list \<Rightarrow> parse_state option" where
  "close_array (FArray xs # stack) = deliver (JArray xs) stack"
| "close_array _ = None"

fun close_object :: "frame list \<Rightarrow> parse_state option" where
  "close_object (FObject ms None # stack) = deliver (JObject ms) stack"
| "close_object _ = None"

fun read_key :: "token \<Rightarrow> frame list \<Rightarrow> parse_state option" where
  "read_key (TString k) (FObject ms None # stack) = Some (PColon, FObject ms (Some k) # stack)"
| "read_key _ _ = None"

fun parse_step :: "parse_state \<Rightarrow> token \<Rightarrow> parse_state option" where
  "parse_step (PValue, stack) t = start_value t stack"
| "parse_step (PValueOrEnd, stack) t =
     (if t = TRBracket then close_array stack else start_value t stack)"
| "parse_step (PAfterElement, stack) t =
     (if t = TComma then Some (PValue, stack)
      else if t = TRBracket then close_array stack else None)"
| "parse_step (PKeyOrEnd, stack) t =
     (if t = TRBrace then close_object stack else read_key t stack)"
| "parse_step (PKey, stack) t = read_key t stack"
| "parse_step (PColon, stack) t = (if t = TColon then Some (PValue, stack) else None)"
| "parse_step (PAfterMember, stack) t =
     (if t = TComma then Some (PKey, stack)
      else if t = TRBrace then close_object stack else None)"
| "parse_step (PDone v, stack) t = None"

primrec parse :: "parse_state \<Rightarrow> token list \<Rightarrow> parse_state option" where
  "parse st [] = Some st"
| "parse st (t # ts) = (case parse_step st t of None \<Rightarrow> None | Some st' \<Rightarrow> parse st' ts)"

definition parse_tokens :: "token list \<Rightarrow> json option" where
  "parse_tokens ts =
     (case parse (PValue, []) ts of
        Some (PDone v, []) \<Rightarrow> Some v
      | _ \<Rightarrow> None)"

definition JSON_parse :: "jsstring \<Rightarrow> json option" where
  "JSON_parse text = (case tokenize text of None \<Rightarrow> None | Some ts \<Rightarrow> parse_tokens ts)"

section \<open>Errors and promises\<close>

text \<open>
  The module throws plain \<^verbatim>\<open>Error\<close> objects that differ in their message. Each
  constructor stands for one \<^verbatim>\<open>new Error(...)\<close> of the source, under the name the
  specification gives to that failure, or for a rejection that comes from the platform.
\<close>

datatype error =
    LibraryLoadError
      \<comment> \<open>\<^verbatim>\<open>'PDF processing library failed to load. Please check your network ...'\<close>\<close>
  | LibraryNotFoundError
      \<comment> \<open>\<^verbatim>\<open>'pdf.js loaded but the library object is not found on the window.'\<close>\<close>
  | FileReadException
      \<comment> \<open>the rejection of \<^verbatim>\<open>file.arrayBuffer()\<close>, not caught by the module\<close>
  | DocumentOpenError jsstring
      \<comment> \<open>\<^verbatim>\<open>`Could not read ${file.name}. It might be corrupted or password-protected.`\<close>\<close>
  | PageRenderError nat jsstring
      \<comment> \<open>\<^verbatim>\<open>`An error occurred while rendering page ${i} from ${file.name}. ...`\<close>\<close>
  | EmptyBatchError
      \<comment> \<open>\<^verbatim>\<open>'No processable content found in the selected files.'\<close>\<close>
  | EmptyResponseError
      \<comment> \<open>\<^verbatim>\<open>'Received an empty response from the AI. ...'\<close>\<close>
  | ServiceError jsstring
      \<comment> \<open>an \<^verbatim>\<open>Error\<close> thrown by the service call, rethrown as it is\<close>
  | ProcessingFailedError
      \<comment> \<open>\<^verbatim>\<open>'Failed to process the statement with Gemini. ...'\<close>\<close>
  | MalformedResponseError
      \<comment> \<open>\<^verbatim>\<open>'The AI returned an invalid data format. Please check the document or try again.'\<close>\<close>

text \<open>What awaiting a promise gives: a value, an exception, or nothing ever.\<close>

datatype 'a outcome = Fulfilled 'a | Rejected error | Pending

section \<open>The response decoder: cleanAndParseJson\<close>

definition FENCE_OPEN :: jsstring where
  "FENCE_OPEN = js ''```json'' @ [LF]"

definition FENCE_CLOSE :: jsstring where
  "FENCE_CLOSE = LF # js ''```''"

text \<open>
  \<^verbatim>\<open>trimmed.match(/```json\n([\s\S]*?)\n```/)\<close>: the match starts at the leftmost
  \<^verbatim>\<open>```json\n\<close> that is followed, later, by \<^verbatim>\<open>\n```\<close>; the group is lazy, so it ends
  at the first \<^verbatim>\<open>\n```\<close> after the opening. If the leftmost opening has no closing
  after it, no later opening has one either. The result is the group, \<open>jsonMatch[1]\<close>.
\<close>

definition jsonMatch :: "jsstring \<Rightarrow> jsstring option" where
  "jsonMatch trimmed =
     (case search FENCE_OPEN trimmed of
        None \<Rightarrow> None
      | Some (_, rest) \<Rightarrow>
          (case search FENCE_CLOSE rest of
             None \<Rightarrow> None
           | Some (inner, _) \<Rightarrow> Some inner))"

definition jsonString :: "jsstring \<Rightarrow> jsstring" where
  "jsonString text =
     (let trimmed = trim text
      in case jsonMatch trimmed of Some inner \<Rightarrow> inner | None \<Rightarrow> trimmed)"

text \<open>
  Both the SyntaxError of \<^verbatim>\<open>JSON.parse\<close> and the \<^verbatim>\<open>"Parsed data is not an array."\<close>
  error are thrown inside the \<^verbatim>\<open>try\<close> and replaced by the \<^verbatim>\<open>catch\<close>.
\<close>

definition cleanAndParseJson :: "jsstring \<Rightarrow> error + json list" where
  "cleanAndParseJson text =
     (case JSON_parse (jsonString text) of
        Some (JArray parsed) \<Rightarrow> Inr parsed
      | _ \<Rightarrow> Inl MalformedResponseError)"

section \<open>The page renderer: fileToGenerativePart\<close>

datatype Part =
    InlineData (mimeType: jsstring) (data: "jsstring option")
  | TextPart jsstring

datatype message =
    LoadingLibrary jsstring         \<comment> \<open>\<^verbatim>\<open>`Loading PDF library for ${file.name}...`\<close>\<close>
  | ProcessingPDF jsstring          \<comment> \<open>\<^verbatim>\<open>`Processing PDF: ${file.name}...`\<close>\<close>
  | RenderingPage nat nat jsstring  \<comment> \<open>\<^verbatim>\<open>`Rendering page ${i} of ${numPages} from ${file.name}...`\<close>\<close>
  | Analyzing                       \<comment> \<open>\<^verbatim>\<open>'Analyzing transactions with Gemini...'\<close>\<close>
  | Finalizing                      \<comment> \<open>\<^verbatim>\<open>'Finalizing results...'\<close>\<close>

text \<open>What a run does to the outside, in order.\<close>

datatype event =
    SetLoadingMessage message
  | GetDocument jsstring         \<comment> \<open>\<^verbatim>\<open>pdfjsLib.getDocument\<close> on the bytes of the named file\<close>
  | GetPage jsstring nat         \<comment> \<open>\<^verbatim>\<open>pdf.getPage(i)\<close> and the rendering of that page\<close>
  | GenerateContent "Part list"  \<comment> \<open>the request to the extraction service\<close>

text \<open>
  A file as the browser hands it over. \<open>bytes\<close> is \<open>None\<close> when the content cannot
  be read (the file was removed or its permission revoked after selection).
\<close>

record File =
  name :: jsstring
  type :: jsstring
  bytes :: "8 word list option"

text \<open>
  An open document of pdf.js. \<open>renderPage i\<close> is the data URL that
  \<^verbatim>\<open>canvas.toDataURL('image/jpeg')\<close> gives after page \<open>i\<close> was fetched and rendered,
  and \<open>None\<close> when anything inside the \<^verbatim>\<open>try\<close> of the loop throws.
\<close>

datatype PDFDocumentProxy =
  PDFDocumentProxy (numPages: nat) (renderPage: "nat \<Rightarrow> jsstring option")

datatype thrown = ErrorObject jsstring | OtherValue

datatype response =
    Responds "jsstring option"   \<comment> \<open>\<^verbatim>\<open>response.text\<close>, possibly undefined\<close>
  | Throws thrown
  | NoAnswer

text \<open>The collaborators of one run: the rendering backend, the file reader, the service.\<close>

record Browser =
  awaitGetPdfJs :: "nat outcome"
  getDocument :: "8 word list \<Rightarrow> PDFDocumentProxy option"
  readAsDataURL :: "jsstring \<Rightarrow> 8 word list \<Rightarrow> jsstring"
  generateContent :: "Part list \<Rightarrow> response"

text \<open>The loop over the pages, \<^verbatim>\<open>for (let i = 1; i <= numPages; i++)\<close>.\<close>

function renderPages ::
  "File \<Rightarrow> PDFDocumentProxy \<Rightarrow> nat \<Rightarrow> Part list \<Rightarrow> event list \<times> Part list outcome" where
  "renderPages file pdf i parts =
     (if i \<le> numPages pdf then
        (let log = [SetLoadingMessage (RenderingPage i (numPages pdf) (name file)),
                    GetPage (name file) i]
         in case renderPage pdf i of
              None \<Rightarrow> (log, Rejected (PageRenderError i (name file)))
            | Some url \<Rightarrow>
                (let base64Data = index (split COMMA url) 1;
                     rest = renderPages file pdf (i + 1)
                              (parts @ [InlineData (js ''image/jpeg'') base64Data])
                 in (log @ fst rest, snd rest)))
      else ([], Fulfilled parts))"
  by pat_completeness auto
termination
  by (relation "measure (\<lambda>(file, pdf, i, parts). Suc (numPages pdf) - i)") auto

text \<open>
  In the image branch the promise has a \<^verbatim>\<open>resolve\<close> only. When the read fails,
  \<^verbatim>\<open>reader.result\<close> is null at \<^verbatim>\<open>loadend\<close>, the handler throws on
  \<^verbatim>\<open>.split\<close> before it calls \<^verbatim>\<open>resolve\<close>, and the promise stays pending.
\<close>

definition fileToGenerativePart :: "Browser \<Rightarrow> File \<Rightarrow> event list \<times> Part list outcome" where
  "fileToGenerativePart env file =
     (if type file = js ''application/pdf'' then
        (let log1 = [SetLoadingMessage (LoadingLibrary (name file))]
         in case awaitGetPdfJs env of
              Rejected e \<Rightarrow> (log1, Rejected e)
            | Pending \<Rightarrow> (log1, Pending)
            | Fulfilled pdfjsLib \<Rightarrow>
                (case bytes file of
                   None \<Rightarrow> (log1, Rejected FileReadException)
                 | Some fileBuffer \<Rightarrow>
                     (let log2 = log1 @ [SetLoadingMessage (ProcessingPDF (name file)),
                                         GetDocument (name file)]
                      in case getDocument env fileBuffer of
                           None \<Rightarrow> (log2, Rejected (DocumentOpenError (name file)))
                         | Some pdf \<Rightarrow>
                             (let rendered = renderPages file pdf 1 []
                              in (log2 @ fst rendered, snd rendered)))))
      else
        (case bytes file of
           None \<Rightarrow> ([], Pending)
         | Some b \<Rightarrow>
             (let base64EncodedData = index (split COMMA (readAsDataURL env (type file) b)) 1
              in ([], Fulfilled [InlineData (type file) base64EncodedData]))))"

section \<open>The pipeline: processStatementFiles\<close>

text \<open>
  \<^verbatim>\<open>Promise.all\<close>: the input promises settle in some order, given here as the list
  \<open>sched\<close> of their indices. A fulfilled promise stores its value at its own index; the
  first rejection rejects the whole; a pending promise never reports. The result is
  fulfilled as soon as every index holds a value.
\<close>

fun collect :: "'a outcome list \<Rightarrow> nat list \<Rightarrow> 'a option list \<Rightarrow> 'a list outcome" where
  "collect ps [] values =
     (case those values of Some vs \<Rightarrow> Fulfilled vs | None \<Rightarrow> Pending)"
| "collect ps (i # sched) values =
     (case those values of
        Some vs \<Rightarrow> Fulfilled vs
      | None \<Rightarrow>
          if i < length ps then
            (case ps ! i of
               Fulfilled v \<Rightarrow> collect ps sched (values[i := Some v])
             | Rejected e \<Rightarrow> Rejected e
             | Pending \<Rightarrow> collect ps sched values)
          else collect ps sched values)"

definition Promise_all :: "'a outcome list \<Rightarrow> nat list \<Rightarrow> 'a list outcome" where
  "Promise_all ps sched = collect ps sched (replicate (length ps) None)"

text \<open>A schedule in which every one of \<open>n\<close> promises gets its turn.\<close>

definition complete :: "nat \<Rightarrow> nat list \<Rightarrow> bool" where
  "complete n sched \<longleftrightarrow> list_all (\<lambda>i. i \<in> set sched) [0..<n]"

definition prompt :: jsstring where
  "prompt =
     js ''You are an expert financial data extraction tool. Your task is to analyze the provided image(s) of one or more bank statements and extract all transactional data.''
     @ [LF, LF] @ js ''Please adhere to the following rules strictly:''
     @ [LF] @ js ''1.  Identify and list every individual transaction from all provided statements.''
     @ [LF] @ js ''2.  Combine transactions from all documents into a single, continuous list.''
     @ [LF] @ js ''3.  Ignore all non-transactional information such as headers, footers, summary sections, bank contact details, and marketing materials.''
     @ [LF] @ js ''4.  For each transaction, extract the required fields.''
     @ [LF] @ js ''5.  The final output must be a valid JSON array of objects, where each object represents a single transaction. Do not include any text, explanation, or markdown formatting before or after the JSON array.''"

text \<open>
  Lines 155 to 157: the renders of all files are started, awaited together and
  flattened into \<^verbatim>\<open>imageParts\<close>.
\<close>

definition imageParts :: "Browser \<Rightarrow> File list \<Rightarrow> nat list \<Rightarrow> Part list outcome" where
  "imageParts env files sched =
     (let allPartsPromises = map (\<lambda>file. snd (fileToGenerativePart env file)) files
      in case Promise_all allPartsPromises sched of
           Fulfilled allPartsArrays \<Rightarrow> Fulfilled (concat allPartsArrays)
         | Rejected e \<Rightarrow> Rejected e
         | Pending \<Rightarrow> Pending)"

text \<open>
  The result of a run and what the run did after the renders. The response schema and
  the model name are constants of the request and are left out of \<open>GenerateContent\<close>.
\<close>

definition processStatementFiles ::
  "Browser \<Rightarrow> File list \<Rightarrow> nat list \<Rightarrow> event list \<times> json list outcome" where
  "processStatementFiles env files sched =
     (case imageParts env files sched of
        Rejected e \<Rightarrow> ([], Rejected e)
      | Pending \<Rightarrow> ([], Pending)
      | Fulfilled parts \<Rightarrow>
          if length parts = 0 then ([], Rejected EmptyBatchError)
          else
            (let request = parts @ [TextPart prompt];
                 log = [SetLoadingMessage Analyzing, GenerateContent request]
             in case generateContent env request of
                  NoAnswer \<Rightarrow> (log, Pending)
                | Throws (ErrorObject m) \<Rightarrow> (log, Rejected (ServiceError m))
                | Throws OtherValue \<Rightarrow> (log, Rejected ProcessingFailedError)
                | Responds textResponse \<Rightarrow>
                    (let log' = log @ [SetLoadingMessage Finalizing]
                     in case textResponse of
                          None \<Rightarrow> (log', Rejected EmptyResponseError)
                        | Some t \<Rightarrow>
                            if t = [] then (log', Rejected EmptyResponseError)
                            else (case cleanAndParseJson t of
                                    Inl e \<Rightarrow> (log', Rejected e)
                                  | Inr transactions \<Rightarrow> (log', Fulfilled transactions)))))"

definition service_calls :: "event list \<Rightarrow> Part list list" where
  "service_calls log = [request. GenerateContent request \<leftarrow> log]"

definition pages_attempted :: "event list \<Rightarrow> nat list" where
  "pages_attempted log = [i. GetPage n i \<leftarrow> log]"

section \<open>The rendering backend: getPdfJs\<close>

text \<open>
  The browser runs one handler at a time, so the shared state changes by whole steps:
  a call of \<^verbatim>\<open>getPdfJs\<close>, the \<^verbatim>\<open>load\<close> event of a script element, its
  \<^verbatim>\<open>error\<close> event. A library object and a promise are references: a library object
  is a number and its \<^verbatim>\<open>GlobalWorkerOptions.workerSrc\<close> is kept in a store; a promise is
  its index in the list of all promises. A script element is known by the promise that
  its two handlers settle. The two window properties are written by the module and by
  the script it loads, by nothing else.
\<close>

definition PDF_WORKER_CDN_URL :: jsstring where
  "PDF_WORKER_CDN_URL = js ''https://cdnjs.cloudflare.com/ajax/libs/pdf.js/2.16.105/pdf.worker.min.js''"

record Globals =
  pdfjsLib :: "nat option"              \<comment> \<open>\<^verbatim>\<open>window.pdfjsLib\<close>\<close>
  pdfjs_dist_build_pdf :: "nat option"  \<comment> \<open>\<^verbatim>\<open>window['pdfjs-dist/build/pdf']\<close>\<close>
  workerSrc :: "nat \<Rightarrow> jsstring option" \<comment> \<open>\<^verbatim>\<open>GlobalWorkerOptions.workerSrc\<close> of a library object\<close>
  pdfjsLibPromise :: "nat option"       \<comment> \<open>the module variable, null at first\<close>
  promises :: "nat outcome list"        \<comment> \<open>the state of every promise created\<close>
  appended :: nat                       \<comment> \<open>script elements appended to \<^verbatim>\<open>document.head\<close>\<close>
  loading :: "nat list"                 \<comment> \<open>script elements whose load or error is yet to come\<close>

text \<open>\<^verbatim>\<open>resolve\<close> and \<^verbatim>\<open>reject\<close> act on a pending promise only.\<close>

definition settle :: "nat \<Rightarrow> nat outcome \<Rightarrow> nat outcome list \<Rightarrow> nat outcome list" where
  "settle p out ps = (if p < length ps \<and> ps ! p = Pending then ps[p := out] else ps)"

definition getPdfJs :: "Globals \<Rightarrow> nat \<times> Globals" where
  "getPdfJs w =
     (case (case pdfjsLib w of Some l \<Rightarrow> Some l | None \<Rightarrow> pdfjs_dist_build_pdf w) of
        Some pdfLib \<Rightarrow>
          (let w1 = (if workerSrc w pdfLib = None \<or> workerSrc w pdfLib = Some []
                     then w\<lparr>workerSrc := (workerSrc w)(pdfLib := Some PDF_WORKER_CDN_URL)\<rparr>
                     else w)
           in (length (promises w1), w1\<lparr>promises := promises w1 @ [Fulfilled pdfLib]\<rparr>))
      | None \<Rightarrow>
          (case pdfjsLibPromise w of
             Some p \<Rightarrow> (p, w)
           | None \<Rightarrow>
               (let p = length (promises w)
                in (p, w\<lparr>promises := promises w @ [Pending],
                         appended := appended w + 1,
                         loading := loading w @ [p],
                         pdfjsLibPromise := Some p\<rparr>))))"

text \<open>
  The \<^verbatim>\<open>load\<close> event of the script of promise \<open>p\<close>. The script has run before the
  handler does: \<open>installed\<close> is the library object it has put on the window, if any.
\<close>

definition script_onload :: "nat \<Rightarrow> nat option \<Rightarrow> Globals \<Rightarrow> Globals" where
  "script_onload p installed w =
     (if p \<in> set (loading w) then
        (let w1 = w\<lparr>loading := remove1 p (loading w),
                     pdfjs_dist_build_pdf :=
                       (case installed of Some l \<Rightarrow> Some l | None \<Rightarrow> pdfjs_dist_build_pdf w)\<rparr>
         in case pdfjs_dist_build_pdf w1 of
              Some pdfLibInstance \<Rightarrow>
                w1\<lparr>workerSrc := (workerSrc w1)(pdfLibInstance := Some PDF_WORKER_CDN_URL),
                   pdfjsLib := Some pdfLibInstance,
                   promises := settle p (Fulfilled pdfLibInstance) (promises w1)\<rparr>
            | None \<Rightarrow>
                w1\<lparr>promises := settle p (Rejected LibraryNotFoundError) (promises w1)\<rparr>)
      else w)"

definition script_onerror :: "nat \<Rightarrow> Globals \<Rightarrow> Globals" where
  "script_onerror p w =
     (if p \<in> set (loading w) then
        w\<lparr>loading := remove1 p (loading w),
          pdfjsLibPromise := None,
          promises := settle p (Rejected LibraryLoadError) (promises w)\<rparr>
      else w)"

datatype step = Call | ScriptLoad nat "nat option" | ScriptError nat

fun do_step :: "Globals \<Rightarrow> step \<Rightarrow> Globals" where
  "do_step w Call = snd (getPdfJs w)"
| "do_step w (ScriptLoad p installed) = script_onload p installed w"
| "do_step w (ScriptError p) = script_onerror p w"

definition run :: "Globals \<Rightarrow> step list \<Rightarrow> Globals" where
  "run w steps = foldl do_step w steps"

text \<open>The module has just been loaded: no promise, no script of its own.\<close>

definition fresh :: "Globals \<Rightarrow> bool" where
  "fresh w \<longleftrightarrow> pdfjsLibPromise w = None \<and> promises w = [] \<and> loading w = [] \<and> appended w = 0"

definition blank :: Globals where
  "blank = \<lparr>pdfjsLib = None, pdfjs_dist_build_pdf = None, workerSrc = (\<lambda>l. None),
            pdfjsLibPromise = None, promises = [], appended = 0, loading = []\<rparr>"

section \<open>Sample inputs\<close>

definition sample_page :: "nat \<Rightarrow> jsstring" where
  "sample_page i = js ''data:image/jpeg;base64,'' @ [0x40 + of_nat i]"

definition sample_pdf :: "8 word list \<Rightarrow> PDFDocumentProxy option" where
  "sample_pdf b =
     (if b = [] then None
      else Some (PDFDocumentProxy (length b - 1) (\<lambda>i. Some (sample_page i))))"

definition sample_browser :: Browser where
  "sample_browser =
     \<lparr>awaitGetPdfJs = Fulfilled 0,
      getDocument = sample_pdf,
      readAsDataURL = (\<lambda>t b. js ''data:'' @ t @ js '';base64,'' @ map (\<lambda>x. 0x41 + ucast x) b),
      generateContent = (\<lambda>request. Responds (Some (js ''[]'')))\<rparr>"

definition scan_png :: File where
  "scan_png = \<lparr>name = js ''scan.png'', type = js ''image/png'', bytes = Some [0, 1]\<rparr>"

definition photo_jpg :: File where
  "photo_jpg = \<lparr>name = js ''photo.jpg'', type = js ''image/jpeg'', bytes = Some [2]\<rparr>"

definition unreadable_png :: File where
  "unreadable_png = \<lparr>name = js ''gone.png'', type = js ''image/png'', bytes = None\<rparr>"

definition statement_pdf :: File where
  "statement_pdf =
     \<lparr>name = js ''statement.pdf'', type = js ''application/pdf'', bytes = Some [1, 2, 3]\<rparr>"

definition blank_pdf :: File where
  "blank_pdf = \<lparr>name = js ''blank.pdf'', type = js ''application/pdf'', bytes = Some [0]\<rparr>"

definition corrupt_pdf :: File where
  "corrupt_pdf =
     \<lparr>name = js ''corrupt.pdf'', type = js ''application/pdf'', bytes = Some []\<rparr>"

section \<open>Invariants\<close>

text \<open>
  Inside \<^verbatim>\<open>true\<close>, \<^verbatim>\<open>false\<close> and \<^verbatim>\<open>null\<close> the scanner expects lower-case
  letters only. Every state it reaches from the start has this property.
\<close>

definition lit_wf :: "lex_state \<Rightarrow> bool" where
  "lit_wf st =
     (case fst st of
        LLit tok rest \<Rightarrow> list_all (\<lambda>c. 0x61 \<le> c \<and> c \<le> 0x7A) rest
      | _ \<Rightarrow> True)"

text \<open>
  At most one script element is loading, and while one is, the module variable holds
  its promise, that promise is pending and no library object is on the window.
\<close>

definition single_flight :: "Globals \<Rightarrow> bool" where
  "single_flight w =
     (case loading w of
        [] \<Rightarrow> True
      | [p] \<Rightarrow> pdfjsLibPromise w = Some p \<and> pdfjsLib w = None \<and> pdfjs_dist_build_pdf w = None
               \<and> p < length (promises w) \<and> promises w ! p = Pending
      | _ \<Rightarrow> False)"

section \<open>Properties of the scanner\<close>

lemma scan_append:
  "scan st (u @ v) = (case scan st u of None \<Rightarrow> None | Some st' \<Rightarrow> scan st' v)"
  by (induction u arbitrary: st) (auto split: option.splits)

lemma lex_out_wf: "lex_out ts c = Some st \<Longrightarrow> lit_wf st"
  by (auto simp: lex_out_def lit_wf_def js_def split: if_splits)

lemma lex_step_wf: "lit_wf st \<Longrightarrow> lex_step st c = Some st' \<Longrightarrow> lit_wf st'"
proof (cases st)
  case (Pair m ts)
  assume wf: "lit_wf st" and step: "lex_step st c = Some st'"
  show ?thesis
  proof (cases m)
    case LOut
    with Pair step show ?thesis by (auto intro: lex_out_wf)
  next
    case (LNum ns lit)
    with Pair step show ?thesis
      by (auto simp: lit_wf_def intro: lex_out_wf [unfolded lit_wf_def] split: option.splits if_splits)
  next
    case (LLit tok rest)
    with Pair step wf show ?thesis
      by (cases rest) (auto simp: lit_wf_def split: if_splits)
  qed (use Pair step in \<open>auto simp: lit_wf_def split: option.splits if_splits\<close>)
qed

lemma scan_wf: "lit_wf st \<Longrightarrow> scan st cs = Some st' \<Longrightarrow> lit_wf st'"
  by (induction cs arbitrary: st) (auto split: option.splits dest: lex_step_wf)

lemma init_wf: "lit_wf (LOut, ts)"
  by (simp add: lit_wf_def)

lemma num_step_simps:
  "num_step ns 0x60 = None" "num_step ns 0x0A = None"
  by (cases ns; simp add: is_digit_def)+

lemma backtick_enters_string:
  assumes "lit_wf st" and "lex_step st 0x60 = Some st'"
  shows "\<exists>s ts. st' = (LStr s, ts)"
proof (cases st)
  case (Pair m ts)
  show ?thesis
  proof (cases m)
    case (LLit tok rest)
    with Pair assms show ?thesis
      by (cases rest) (auto simp: lit_wf_def split: if_splits)
  qed (use Pair assms in \<open>auto simp: lex_out_def is_json_ws_def is_digit_def escape_def hex_val_def
         num_step_simps split: option.splits if_splits\<close>)
qed

lemma FENCE_OPEN_eq: "FENCE_OPEN = [0x60, 0x60, 0x60, 0x6A, 0x73, 0x6F, 0x6E, 0x0A]"
  by (simp add: FENCE_OPEN_def js_def LF_def)

lemma FENCE_CLOSE_eq: "FENCE_CLOSE = [0x0A, 0x60, 0x60, 0x60]"
  by (simp add: FENCE_CLOSE_def js_def LF_def)

lemma scan_FENCE_OPEN:
  assumes "lit_wf st"
  shows "scan st (FENCE_OPEN @ v) = None"
proof (cases "lex_step st 0x60")
  case None
  then show ?thesis by (simp add: FENCE_OPEN_eq)
next
  case (Some st')
  with backtick_enters_string [OF assms] obtain s ts where "st' = (LStr s, ts)" by blast
  with Some show ?thesis by (simp add: FENCE_OPEN_eq)
qed

lemma newline_leaves_token:
  assumes "lit_wf st" and "lex_step st 0x0A = Some st'"
  shows "\<exists>ts. st' = (LOut, ts)"
proof (cases st)
  case (Pair m ts)
  show ?thesis
  proof (cases m)
    case (LLit tok rest)
    with Pair assms show ?thesis
      by (cases rest) (auto simp: lit_wf_def split: if_splits)
  qed (use Pair assms in \<open>auto simp: lex_out_def is_json_ws_def is_digit_def escape_def hex_val_def
         num_step_simps split: option.splits if_splits\<close>)
qed

lemma scan_newline_backtick:
  assumes "lit_wf st"
  shows "scan st (0x0A # 0x60 # v) = None"
proof (cases "lex_step st 0x0A")
  case None
  then show ?thesis by simp
next
  case (Some st')
  with newline_leaves_token [OF assms] obtain ts where "st' = (LOut, ts)" by blast
  with Some show ?thesis by (simp add: lex_out_def is_json_ws_def is_digit_def)
qed

lemma whitespace_cases:
  "is_whitespace c \<Longrightarrow>
     c = 0x09 \<or> c = 0x0A \<or> c = 0x0B \<or> c = 0x0C \<or> c = 0x0D \<or> c = 0x20 \<or> 160 \<le> unat c"
  unfolding is_whitespace_def
  by (elim disjE conjE) (simp_all add: word_le_nat_alt)

lemma high_code_unit:
  assumes "160 \<le> unat (c :: code_unit)"
  shows "\<not> is_json_ws c" "\<not> is_digit c" "\<not> c < 0x20" "escape c = None" "hex_val c = None"
    "\<not> (0x61 \<le> c \<and> c \<le> 0x7A)" "c \<noteq> 0x22" "c \<noteq> 0x5C" "c \<noteq> 0x75"
    "c \<noteq> 0x2E" "c \<noteq> 0x65" "c \<noteq> 0x45" "c \<noteq> 0x2B" "c \<noteq> 0x2D" "c \<noteq> 0x30"
proof -
  have ne: "c \<noteq> k" if "unat k < 160" for k
    using assms that by auto
  show "c \<noteq> 0x22" "c \<noteq> 0x5C" "c \<noteq> 0x75" "c \<noteq> 0x2E" "c \<noteq> 0x65" "c \<noteq> 0x45"
    "c \<noteq> 0x2B" "c \<noteq> 0x2D" "c \<noteq> 0x30"
    by (rule ne, simp)+
  show "\<not> is_json_ws c"
    unfolding is_json_ws_def by (intro notI, elim disjE) (use ne in auto)
  show "\<not> is_digit c" "\<not> c < 0x20" "\<not> (0x61 \<le> c \<and> c \<le> 0x7A)"
    using assms by (simp_all add: is_digit_def word_le_nat_alt word_less_nat_alt)
  show "escape c = None"
    unfolding escape_def using ne [of "0x22"] ne [of "0x5C"] ne [of "0x2F"] ne [of "0x62"] ne [of "0x66"]
      ne [of "0x6E"] ne [of "0x72"] ne [of "0x74"] by simp
  show "hex_val c = None"
    unfolding hex_val_def using assms by (simp add: word_le_nat_alt)
qed

lemma high_ne: "160 \<le> unat (c :: code_unit) \<Longrightarrow> unat k < 160 \<Longrightarrow> c \<noteq> k"
  by auto

lemma high_lex_out:
  assumes "160 \<le> unat (c :: code_unit)"
  shows "lex_out ts c = None"
  unfolding lex_out_def
  using high_ne [OF assms, of "0x5B"] high_ne [OF assms, of "0x5D"] high_ne [OF assms, of "0x7B"]
    high_ne [OF assms, of "0x7D"] high_ne [OF assms, of "0x2C"] high_ne [OF assms, of "0x3A"]
    high_ne [OF assms, of "0x74"] high_ne [OF assms, of "0x66"] high_ne [OF assms, of "0x6E"]
    high_code_unit [OF assms]
  by simp

lemma lex_out_whitespace:
  assumes "is_whitespace c"
  shows "lex_out ts c = (if is_json_ws c then Some (LOut, ts) else None)"
proof (cases "is_json_ws c")
  case True
  then show ?thesis by (simp add: lex_out_def)
next
  case False
  with whitespace_cases [OF assms] have "c = 0x0B \<or> c = 0x0C \<or> 160 \<le> unat c"
    by (auto simp: is_json_ws_def)
  then have "lex_out ts c = None"
  proof (elim disjE)
    assume "160 \<le> unat c"
    then show ?thesis by (rule high_lex_out)
  qed (simp_all add: lex_out_def is_json_ws_def is_digit_def)
  with False show ?thesis by simp
qed

lemma num_step_whitespace:
  assumes "is_whitespace c"
  shows "num_step ns c = None"
proof -
  from whitespace_cases [OF assms]
  have "\<not> is_digit c \<and> c \<noteq> 0x30 \<and> c \<noteq> 0x2E \<and> c \<noteq> 0x65 \<and> c \<noteq> 0x45
        \<and> c \<noteq> 0x2B \<and> c \<noteq> 0x2D"
  proof (elim disjE)
    assume "160 \<le> unat c"
    from high_code_unit [OF this] show ?thesis by simp
  qed (simp_all add: is_digit_def)
  then show ?thesis by (cases ns) simp_all
qed

lemma whitespace_in_token:
  assumes "is_whitespace c"
  shows "c \<noteq> 0x22 \<and> c \<noteq> 0x5C \<and> c \<noteq> 0x75 \<and> escape c = None \<and> hex_val c = None
         \<and> \<not> (0x61 \<le> c \<and> c \<le> 0x7A) \<and> (c < 0x20 \<or> 160 \<le> unat c \<or> c = 0x20)"
  using whitespace_cases [OF assms]
proof (elim disjE)
  assume "160 \<le> unat c"
  from high_code_unit [OF this] this show ?thesis by simp
qed (simp_all add: escape_def hex_val_def)

lemma scan_leading_whitespace:
  "is_whitespace c \<Longrightarrow> scan (LOut, ts) (c # cs) = Some st \<Longrightarrow> scan (LOut, ts) cs = Some st"
  by (auto simp: lex_out_whitespace split: if_splits option.splits)

lemma tokenize_dropWhile:
  "tokenize s = Some toks \<Longrightarrow> tokenize (dropWhile is_whitespace s) = Some toks"
proof (induction s)
  case Nil
  then show ?case by simp
next
  case (Cons c cs)
  show ?case
  proof (cases "is_whitespace c")
    case False
    with Cons.prems show ?thesis by simp
  next
    case True
    from Cons.prems obtain st where st: "scan (LOut, []) (c # cs) = Some st"
      and fin: "lex_finish st = Some toks"
      by (auto simp: tokenize_def split: option.splits)
    from scan_leading_whitespace [OF True st] fin have "tokenize cs = Some toks"
      by (simp add: tokenize_def)
    with Cons.IH True show ?thesis by simp
  qed
qed

lemma lex_step_trailing_whitespace:
  assumes "is_whitespace c" and "lit_wf st" and "lex_step st c = Some st'"
    and "lex_finish st' = Some toks"
  shows "lex_finish st = Some toks"
proof (cases st)
  case (Pair m ts)
  note c = whitespace_in_token [OF assms(1)]
  show ?thesis
  proof (cases m)
    case LOut
    with Pair assms show ?thesis
      by (auto simp: lex_out_whitespace split: if_splits)
  next
    case (LStr s)
    with Pair assms c show ?thesis by (auto split: if_splits)
  next
    case (LEsc s)
    with Pair assms c show ?thesis by auto
  next
    case (LUni s hs)
    with Pair assms c show ?thesis by auto
  next
    case (LNum ns lit)
    with Pair assms show ?thesis
      by (auto simp: num_step_whitespace lex_out_whitespace split: if_splits)
  next
    case (LLit tok rest)
    with Pair assms c show ?thesis
      by (cases rest) (auto simp: lit_wf_def split: if_splits)
  qed
qed

lemma tokenize_snoc_whitespace:
  assumes "is_whitespace c" and "tokenize (s @ [c]) = Some toks"
  shows "tokenize s = Some toks"
proof -
  from assms(2) obtain st st' where st: "scan (LOut, []) s = Some st"
    and step: "lex_step st c = Some st'" and fin: "lex_finish st' = Some toks"
    by (auto simp: tokenize_def scan_append split: option.splits)
  from scan_wf [OF init_wf st] have "lit_wf st" .
  from lex_step_trailing_whitespace [OF assms(1) this step fin] st
  show ?thesis by (simp add: tokenize_def)
qed

lemma tokenize_trim_end:
  "tokenize s = Some toks \<Longrightarrow> tokenize (rev (dropWhile is_whitespace (rev s))) = Some toks"
proof (induction s rule: rev_induct)
  case Nil
  then show ?case by simp
next
  case (snoc c cs)
  show ?case
  proof (cases "is_whitespace c")
    case False
    with snoc.prems show ?thesis by simp
  next
    case True
    from tokenize_snoc_whitespace [OF True snoc.prems] have "tokenize cs = Some toks" .
    with snoc.IH True show ?thesis by simp
  qed
qed

lemma tokenize_trim: "tokenize s = Some toks \<Longrightarrow> tokenize (trim s) = Some toks"
  unfolding trim_def by (intro tokenize_trim_end tokenize_dropWhile)

lemma JSON_parse_trim: "JSON_parse s = Some v \<Longrightarrow> JSON_parse (trim s) = Some v"
  by (auto simp: JSON_parse_def tokenize_trim split: option.splits)

lemma search_Some: "search pat s = Some (u, v) \<Longrightarrow> s = u @ pat @ v"
proof (induction s arbitrary: u)
  case Nil
  then show ?case by (simp split: if_splits)
next
  case (Cons c cs)
  show ?case
  proof (cases "prefix pat (c # cs)")
    case True
    with Cons.prems have "u = []" "v = drop (length pat) (c # cs)" by simp_all
    with True show ?thesis by (metis append_Nil append_eq_conv_conj prefix_def)
  next
    case False
    with Cons.prems obtain u' where "search pat cs = Some (u', v)" "u = c # u'"
      by (auto split: option.splits)
    with Cons.IH show ?thesis by simp
  qed
qed

lemma parsed_no_FENCE_OPEN:
  assumes "tokenize s = Some toks"
  shows "search FENCE_OPEN s = None"
proof (rule ccontr)
  assume "search FENCE_OPEN s \<noteq> None"
  then obtain u v where "search FENCE_OPEN s = Some (u, v)" by auto
  then have s: "s = u @ FENCE_OPEN @ v" by (rule search_Some)
  from assms obtain st where "scan (LOut, []) s = Some st"
    by (auto simp: tokenize_def split: option.splits)
  with s obtain st' where u: "scan (LOut, []) u = Some st'"
    and "scan st' (FENCE_OPEN @ v) = Some st"
    by (auto simp: scan_append split: option.splits)
  with scan_FENCE_OPEN [OF scan_wf [OF init_wf u]] show False by simp
qed

lemma search_FENCE_CLOSE:
  assumes "lit_wf st" and "scan st s = Some st'"
  shows "search FENCE_CLOSE (s @ FENCE_CLOSE) = Some (s, [])"
  using assms
proof (induction s arbitrary: st)
  case Nil
  then show ?case by (simp add: FENCE_CLOSE_eq)
next
  case (Cons c cs)
  from Cons.prems obtain st1 where step: "lex_step st c = Some st1" and rest: "scan st1 cs = Some st'"
    by (auto split: option.splits)
  have wf1: "lit_wf st1" using lex_step_wf [OF Cons.prems(1) step] .
  have "\<not> prefix FENCE_CLOSE ((c # cs) @ FENCE_CLOSE)"
  proof
    assume p: "prefix FENCE_CLOSE ((c # cs) @ FENCE_CLOSE)"
    show False
    proof (cases cs)
      case Nil
      with p show False by (simp add: FENCE_CLOSE_eq)
    next
      case (Cons d ds)
      with p have "c = 0x0A" "d = 0x60" by (simp_all add: FENCE_CLOSE_eq)
      with Cons \<open>scan st (c # cs) = Some st'\<close> scan_newline_backtick [OF \<open>lit_wf st\<close>, of ds]
      show False by simp
    qed
  qed
  with Cons.IH [OF wf1 rest] show ?case by simp
qed

lemma trim_unchanged:
  assumes "s \<noteq> []" and "\<not> is_whitespace (hd s)" and "\<not> is_whitespace (last s)"
  shows "trim s = s"
proof -
  from assms(1,2) have a: "dropWhile is_whitespace s = s" by (cases s) simp_all
  from assms(1,3) have "dropWhile is_whitespace (rev s) = rev s"
    by (cases s rule: rev_cases) simp_all
  with a show ?thesis by (simp add: trim_def)
qed

lemma trim_keeps_head:
  assumes "\<not> is_whitespace c"
  shows "\<exists>r. trim (c # s) = c # r"
proof -
  have "dropWhile is_whitespace (rev s @ [c]) = dropWhile is_whitespace (rev s) @ [c]
        \<or> dropWhile is_whitespace (rev s @ [c]) = [c]"
    using assms by (simp add: dropWhile_append)
  then show ?thesis
  proof
    assume "dropWhile is_whitespace (rev s @ [c]) = dropWhile is_whitespace (rev s) @ [c]"
    with assms show ?thesis by (simp add: trim_def)
  next
    assume "dropWhile is_whitespace (rev s @ [c]) = [c]"
    with assms show ?thesis by (simp add: trim_def)
  qed
qed

section \<open>Properties of the response decoder\<close>

lemma search_prefix: "pat \<noteq> [] \<Longrightarrow> search pat (pat @ rest) = Some ([], rest)"
  by (cases pat) simp_all

lemma backtick_not_whitespace: "\<not> is_whitespace 0x60"
  by (simp add: is_whitespace_def)

lemma wrapped_eq:
  "js ''```json'' @ [LF] @ text @ [LF] @ js ''```'' = FENCE_OPEN @ text @ FENCE_CLOSE"
  by (simp add: FENCE_OPEN_def FENCE_CLOSE_def)

lemma trim_wrapped: "trim (FENCE_OPEN @ text @ FENCE_CLOSE) = FENCE_OPEN @ text @ FENCE_CLOSE"
  by (rule trim_unchanged) (simp_all add: FENCE_OPEN_eq FENCE_CLOSE_eq backtick_not_whitespace)

lemma jsonString_parsed:
  assumes "tokenize text = Some toks"
  shows "jsonString text = trim text"
proof -
  from assms have "tokenize (trim text) = Some toks" by (rule tokenize_trim)
  then have "search FENCE_OPEN (trim text) = None" by (rule parsed_no_FENCE_OPEN)
  then show ?thesis by (simp add: jsonString_def jsonMatch_def)
qed

lemma jsonString_wrapped:
  assumes "tokenize text = Some toks"
  shows "jsonString (FENCE_OPEN @ text @ FENCE_CLOSE) = text"
proof -
  from assms obtain st where "scan (LOut, []) text = Some st"
    by (auto simp: tokenize_def split: option.splits)
  from search_FENCE_CLOSE [OF init_wf this]
  have close: "search FENCE_CLOSE (text @ FENCE_CLOSE) = Some (text, [])" .
  have "FENCE_OPEN \<noteq> []" by (simp add: FENCE_OPEN_eq)
  then have "search FENCE_OPEN (FENCE_OPEN @ text @ FENCE_CLOSE) = Some ([], text @ FENCE_CLOSE)"
    by (rule search_prefix)
  with close show ?thesis
    by (simp add: jsonString_def jsonMatch_def trim_wrapped)
qed

text \<open>
  C4. For a text that \<^verbatim>\<open>JSON.parse\<close> accepts as an array, decoding the text and
  decoding \<^verbatim>\<open>"```json\n" + text + "\n```"\<close> give the same result, the array itself.
\<close>

theorem rewrap_same_result:
  assumes "JSON_parse text = Some (JArray xs)"
  shows "cleanAndParseJson (js ''```json'' @ [LF] @ text @ [LF] @ js ''```'') = cleanAndParseJson text
         \<and> cleanAndParseJson text = Inr xs"
proof -
  from assms obtain toks where toks: "tokenize text = Some toks"
    by (auto simp: JSON_parse_def split: option.splits)
  from assms have "JSON_parse (trim text) = Some (JArray xs)" by (rule JSON_parse_trim)
  with jsonString_parsed [OF toks] have plain: "cleanAndParseJson text = Inr xs"
    by (simp add: cleanAndParseJson_def)
  from jsonString_wrapped [OF toks] assms
  have "cleanAndParseJson (FENCE_OPEN @ text @ FENCE_CLOSE) = Inr xs"
    by (simp add: cleanAndParseJson_def)
  with plain show ?thesis by (simp only: wrapped_eq simp_thms)
qed

lemma parse_one: "JSON_parse (js ''[1]'') = Some (JArray [JNumber (js ''1'')])"
  by code_simp

theorem rewrap_same_result_witness:
  "JSON_parse (js ''[1]'') = Some (JArray [JNumber (js ''1'')])
   \<and> cleanAndParseJson (js ''```json'' @ [LF] @ js ''[1]'' @ [LF] @ js ''```'')
       = Inr [JNumber (js ''1'')]"
  using rewrap_same_result [OF parse_one] parse_one by simp

text \<open>
  C1. The decoder fails, and then with MalformedResponseError, exactly when the
  trimmed and fence-stripped text does not parse or parses to something that is not an
  array; an array is returned as it was parsed, with no look at its records. So
  \<^verbatim>\<open>not json\<close> and \<^verbatim>\<open>{}\<close> fail, \<^verbatim>\<open>[]\<close> gives the empty list, and a record
  without \<^verbatim>\<open>amount\<close> passes through as it is.
\<close>

theorem cleanAndParseJson_malformed_iff:
  "(cleanAndParseJson text = Inl MalformedResponseError \<longleftrightarrow>
      JSON_parse (jsonString text) = None
      \<or> (\<exists>v. JSON_parse (jsonString text) = Some v \<and> (\<forall>parsed. v \<noteq> JArray parsed)))
   \<and> (JSON_parse (jsonString text) = Some (JArray parsed) \<longrightarrow> cleanAndParseJson text = Inr parsed)
   \<and> (cleanAndParseJson text = Inl e \<longrightarrow> e = MalformedResponseError)
   \<and> cleanAndParseJson (js ''not json'') = Inl MalformedResponseError
   \<and> cleanAndParseJson (js ''{}'') = Inl MalformedResponseError
   \<and> cleanAndParseJson (js ''[]'') = Inr []
   \<and> cleanAndParseJson (js ''[{\"date\":\"2024-01-05\",\"description\":\"COFFEE SHOP\",\"category\":\"Dining\",\"notes\":\"\"}]'')
       = Inr [JObject [(js ''date'', JString (js ''2024-01-05'')),
                       (js ''description'', JString (js ''COFFEE SHOP'')),
                       (js ''category'', JString (js ''Dining'')),
                       (js ''notes'', JString [])]]"
proof (intro conjI)
  show "cleanAndParseJson text = Inl MalformedResponseError \<longleftrightarrow>
      JSON_parse (jsonString text) = None
      \<or> (\<exists>v. JSON_parse (jsonString text) = Some v \<and> (\<forall>parsed. v \<noteq> JArray parsed))"
    by (auto simp: cleanAndParseJson_def split: option.splits json.splits)
  show "JSON_parse (jsonString text) = Some (JArray parsed) \<longrightarrow> cleanAndParseJson text = Inr parsed"
    by (simp add: cleanAndParseJson_def)
  show "cleanAndParseJson text = Inl e \<longrightarrow> e = MalformedResponseError"
    by (auto simp: cleanAndParseJson_def split: option.splits json.splits)
  show "cleanAndParseJson (js ''not json'') = Inl MalformedResponseError" by code_simp
  show "cleanAndParseJson (js ''{}'') = Inl MalformedResponseError" by code_simp
  show "cleanAndParseJson (js ''[]'') = Inr []" by code_simp
  show "cleanAndParseJson (js ''[{\"date\":\"2024-01-05\",\"description\":\"COFFEE SHOP\",\"category\":\"Dining\",\"notes\":\"\"}]'')
       = Inr [JObject [(js ''date'', JString (js ''2024-01-05'')),
                       (js ''description'', JString (js ''COFFEE SHOP'')),
                       (js ''category'', JString (js ''Dining'')),
                       (js ''notes'', JString [])]]"
    by code_simp
qed

lemma jsonString_true: "JSON_parse (jsonString (js ''  [true] '')) = Some (JArray [JBool True])"
  by code_simp

lemma jsonString_object: "JSON_parse (jsonString (js ''{\"a\":[]}'')) = Some (JObject [(js ''a'', JArray [])])"
  by code_simp

theorem cleanAndParseJson_malformed_iff_witness:
  "JSON_parse (jsonString (js ''  [true] '')) = Some (JArray [JBool True])
   \<and> cleanAndParseJson (js ''  [true] '') = Inr [JBool True]
   \<and> JSON_parse (jsonString (js ''{\"a\":[]}'')) = Some (JObject [(js ''a'', JArray [])])
   \<and> cleanAndParseJson (js ''{\"a\":[]}'') = Inl MalformedResponseError"
  using cleanAndParseJson_malformed_iff [of "js ''  [true] ''" "[JBool True]"]
    cleanAndParseJson_malformed_iff [of "js ''{\"a\":[]}''"]
    jsonString_true jsonString_object
  by simp

text \<open>
  C10, as stated, fails: the pattern is searched anywhere in the trimmed text, so a text
  wrapped in an unlabeled fence is stripped all the same when a json fence stands
  inside it, and the decoder returns the array found there.
\<close>

theorem nested_fence_counterexample:
  "jsonString (js ''```'' @ [LF] @ js ''```json'' @ [LF] @ js ''[]'' @ [LF] @ js ''```'' @ [LF] @ js ''```'')
     = js ''[]''
   \<and> cleanAndParseJson (js ''```'' @ [LF] @ js ''```json'' @ [LF] @ js ''[]'' @ [LF] @ js ''```'' @ [LF] @ js ''```'')
     = Inr []"
  by code_simp

lemma scan_backtick: "scan (LOut, ts) (0x60 # r) = None"
  by (simp add: lex_out_def is_json_ws_def is_digit_def)

lemma jsonMatch_Some:
  assumes "jsonMatch s = Some inner"
  shows "\<exists>u v. s = u @ FENCE_OPEN @ inner @ FENCE_CLOSE @ v"
proof -
  from assms obtain u rest v where "search FENCE_OPEN s = Some (u, rest)"
    and "search FENCE_CLOSE rest = Some (inner, v)"
    by (auto simp: jsonMatch_def split: option.splits)
  then have "s = u @ FENCE_OPEN @ rest" "rest = inner @ FENCE_CLOSE @ v"
    by (auto dest: search_Some)
  then show ?thesis by blast
qed

text \<open>
  C10, amended. Stripping happens only where the trimmed text contains
  \<^verbatim>\<open>```json\<close>, a newline, the text kept, a newline and \<^verbatim>\<open>```\<close>. A text wrapped in
  an unlabeled or differently labeled fence in which the pattern finds no match is not
  stripped, is parsed as it stands, and the decoder fails with MalformedResponseError.
\<close>

theorem only_json_fence_stripped:
  "(jsonMatch (trim text) = None \<longrightarrow> jsonString text = trim text)
   \<and> (jsonString text \<noteq> trim text \<longrightarrow>
        (\<exists>u v. trim text = u @ js ''```json'' @ [LF] @ jsonString text @ [LF] @ js ''```'' @ v))
   \<and> (text = js ''```'' @ label @ [LF] @ body @ [LF] @ js ''```'' \<longrightarrow>
        jsonMatch (trim text) = None \<longrightarrow>
        cleanAndParseJson text = Inl MalformedResponseError)"
proof (intro conjI impI)
  assume "jsonMatch (trim text) = None"
  then show "jsonString text = trim text" by (simp add: jsonString_def)
next
  assume ne: "jsonString text \<noteq> trim text"
  then obtain inner where m: "jsonMatch (trim text) = Some inner"
    by (cases "jsonMatch (trim text)") (auto simp: jsonString_def)
  then have "jsonString text = inner" by (simp add: jsonString_def)
  with jsonMatch_Some [OF m]
  show "\<exists>u v. trim text = u @ js ''```json'' @ [LF] @ jsonString text @ [LF] @ js ''```'' @ v"
    by (simp add: FENCE_OPEN_def FENCE_CLOSE_def)
next
  assume wrapped: "text = js ''```'' @ label @ [LF] @ body @ [LF] @ js ''```''"
    and none: "jsonMatch (trim text) = None"
  from wrapped obtain s where "text = 0x60 # s" by (simp add: js_def)
  with trim_keeps_head [OF backtick_not_whitespace, of s]
  obtain r where "trim text = 0x60 # r" by auto
  with none have "jsonString text = 0x60 # r" by (simp add: jsonString_def)
  then have "JSON_parse (jsonString text) = None"
    by (simp add: JSON_parse_def tokenize_def scan_backtick del: scan.simps)
  then show "cleanAndParseJson text = Inl MalformedResponseError"
    by (simp add: cleanAndParseJson_def)
qed

lemma unlabeled_no_match:
  "jsonMatch (trim (js ''```'' @ [] @ [LF] @ js ''[]'' @ [LF] @ js ''```'')) = None"
  "jsonMatch (trim (js ''```'' @ js ''js'' @ [LF] @ js ''[]'' @ [LF] @ js ''```'')) = None"
  by code_simp+

theorem only_json_fence_stripped_witness:
  "jsonMatch (trim (js ''```'' @ [] @ [LF] @ js ''[]'' @ [LF] @ js ''```'')) = None
   \<and> cleanAndParseJson (js ''```'' @ [] @ [LF] @ js ''[]'' @ [LF] @ js ''```'')
       = Inl MalformedResponseError
   \<and> jsonMatch (trim (js ''```'' @ js ''js'' @ [LF] @ js ''[]'' @ [LF] @ js ''```'')) = None
   \<and> cleanAndParseJson (js ''```'' @ js ''js'' @ [LF] @ js ''[]'' @ [LF] @ js ''```'')
       = Inl MalformedResponseError"
  using only_json_fence_stripped [of "js ''```'' @ [] @ [LF] @ js ''[]'' @ [LF] @ js ''```''" "[]" "js ''[]''"]
    only_json_fence_stripped [of "js ''```'' @ js ''js'' @ [LF] @ js ''[]'' @ [LF] @ js ''```''" "js ''js''" "js ''[]''"]
    unlabeled_no_match
  by blast

section \<open>Properties of Promise.all\<close>

lemma those_map_Some: "those (map Some vs) = Some vs"
  by (induction vs) auto

lemma those_eq_Some: "those values = Some vs \<Longrightarrow> values = map Some vs"
  by (induction "values" arbitrary: vs) (auto split: option.splits)

lemma collect_all_fulfilled:
  assumes "length values = length vs"
    and "\<forall>i<length vs. values ! i = None \<or> values ! i = Some (vs ! i)"
    and "\<forall>i<length vs. values ! i = None \<longrightarrow> i \<in> set sched"
  shows "collect (map Fulfilled vs) sched values = Fulfilled vs"
  using assms
proof (induction sched arbitrary: "values")
  case Nil
  then have "\<forall>i<length vs. values ! i = Some (vs ! i)" by fastforce
  with Nil.prems(1) have "values = map Some vs"
    by (simp add: list_eq_iff_nth_eq)
  then show ?case by (simp add: those_map_Some)
next
  case (Cons j sched)
  show ?case
  proof (cases "those values")
    case (Some ws)
    then have eq: "values = map Some ws" by (rule those_eq_Some)
    with Cons.prems(1) have len: "length ws = length vs" by simp
    have "ws = vs"
    proof (rule nth_equalityI [OF len])
      fix i assume "i < length ws"
      with len eq Cons.prems(2) show "ws ! i = vs ! i" by auto
    qed
    with Some show ?thesis by simp
  next
    case None
    show ?thesis
    proof (cases "j < length vs")
      case True
      have "collect (map Fulfilled vs) sched (values[j := Some (vs ! j)]) = Fulfilled vs"
      proof (rule Cons.IH)
        show "length (values[j := Some (vs ! j)]) = length vs" using Cons.prems(1) by simp
        show "\<forall>i<length vs. values[j := Some (vs ! j)] ! i = None
                \<or> values[j := Some (vs ! j)] ! i = Some (vs ! i)"
          using Cons.prems(1,2) True by (auto simp: nth_list_update)
        show "\<forall>i<length vs. values[j := Some (vs ! j)] ! i = None \<longrightarrow> i \<in> set sched"
          using Cons.prems(1,3) True by (auto simp: nth_list_update split: if_splits)
      qed
      with None True show ?thesis by simp
    next
      case False
      have "collect (map Fulfilled vs) sched values = Fulfilled vs"
      proof (rule Cons.IH [OF Cons.prems(1,2)])
        show "\<forall>i<length vs. values ! i = None \<longrightarrow> i \<in> set sched"
          using Cons.prems(3) False by auto
      qed
      with None False show ?thesis by simp
    qed
  qed
qed

lemma Promise_all_fulfilled:
  "complete (length vs) sched \<Longrightarrow> Promise_all (map Fulfilled vs) sched = Fulfilled vs"
  unfolding Promise_all_def
  by (rule collect_all_fulfilled) (auto simp: complete_def list_all_iff)

lemma collect_Fulfilled_inputs:
  assumes "collect ps sched values = Fulfilled vs"
    and "length values = length ps"
    and "\<forall>i<length ps. \<forall>v. values ! i = Some v \<longrightarrow> ps ! i = Fulfilled v"
  shows "ps = map Fulfilled vs"
  using assms
proof (induction sched arbitrary: "values")
  case Nil
  then have "those values = Some vs" by (auto split: option.splits)
  then have "values = map Some vs" by (rule those_eq_Some)
  with Nil.prems(2,3) show ?case by (auto simp: list_eq_iff_nth_eq)
next
  case (Cons j sched)
  show ?case
  proof (cases "those values")
    case (Some ws)
    with Cons.prems(1) have "ws = vs" by simp
    with Some have "values = map Some vs" by (simp add: those_eq_Some)
    with Cons.prems(2,3) show ?thesis by (auto simp: list_eq_iff_nth_eq)
  next
    case None
    show ?thesis
    proof (cases "j < length ps")
      case False
      with None Cons.prems(1) have "collect ps sched values = Fulfilled vs" by simp
      then show ?thesis by (rule Cons.IH [OF _ Cons.prems(2,3)])
    next
      case True
      show ?thesis
      proof (cases "ps ! j")
        case (Fulfilled v)
        with None True Cons.prems(1)
        have "collect ps sched (values[j := Some v]) = Fulfilled vs" by simp
        then show ?thesis
        proof (rule Cons.IH)
          show "length (values[j := Some v]) = length ps" using Cons.prems(2) by simp
          show "\<forall>i<length ps. \<forall>va. values[j := Some v] ! i = Some va \<longrightarrow> ps ! i = Fulfilled va"
          proof (intro allI impI)
            fix i va
            assume i: "i < length ps" and va: "values[j := Some v] ! i = Some va"
            show "ps ! i = Fulfilled va"
            proof (cases "i = j")
              case True
              with i va Cons.prems(2) Fulfilled show ?thesis by simp
            next
              case False
              with i va Cons.prems(3) show ?thesis by simp
            qed
          qed
        qed
      next
        case (Rejected e)
        with None True Cons.prems(1) show ?thesis by simp
      next
        case Pending
        with None True Cons.prems(1) have "collect ps sched values = Fulfilled vs" by simp
        then show ?thesis by (rule Cons.IH [OF _ Cons.prems(2,3)])
      qed
    qed
  qed
qed

lemma Promise_all_Fulfilled_inputs:
  "Promise_all ps sched = Fulfilled vs \<Longrightarrow> ps = map Fulfilled vs"
  unfolding Promise_all_def
  by (erule collect_Fulfilled_inputs) auto

lemma Promise_all_Nil: "Promise_all [] sched = Fulfilled []"
  by (cases sched) (simp_all add: Promise_all_def)


section \<open>Properties of the page renderer\<close>

declare renderPages.simps [simp del]

lemma renderPages_ok:
  assumes "\<forall>j. i \<le> j \<and> j \<le> numPages pdf \<longrightarrow> renderPage pdf j = Some (url j)"
  shows "snd (renderPages f pdf i parts) =
           Fulfilled (parts @ map (\<lambda>j. InlineData (js ''image/jpeg'') (index (split COMMA (url j)) 1))
                                  [i..<Suc (numPages pdf)])
         \<and> pages_attempted (fst (renderPages f pdf i parts)) = [i..<Suc (numPages pdf)]"
  using assms
proof (induction f pdf i parts rule: renderPages.induct)
  case (1 f pdf i parts)
  show ?case
  proof (cases "i \<le> numPages pdf")
    case False
    then show ?thesis
      by (subst (1 2) renderPages.simps) (simp add: pages_attempted_def)
  next
    case True
    from "1.prems" True have page: "renderPage pdf i = Some (url i)" by simp
    have rest: "\<forall>j. i + 1 \<le> j \<and> j \<le> numPages pdf \<longrightarrow> renderPage pdf j = Some (url j)"
      using "1.prems" by simp
    note IH = "1.IH" [OF True refl page refl rest]
    from True have upt: "[i..<Suc (numPages pdf)] = i # [Suc i..<Suc (numPages pdf)]"
      by (simp add: upt_conv_Cons)
    show ?thesis
      using IH True page
      by (subst (1 2) renderPages.simps) (simp add: upt pages_attempted_def Let_def del: upt_Suc)
  qed
qed

lemma renderPages_Fulfilled:
  "snd (renderPages f pdf i parts) = Fulfilled ps \<Longrightarrow> i \<le> j \<Longrightarrow> j \<le> numPages pdf
     \<Longrightarrow> renderPage pdf j \<noteq> None"
proof (induction f pdf i parts rule: renderPages.induct)
  case (1 f pdf i parts)
  from "1.prems" have le: "i \<le> numPages pdf" by simp
  from "1.prems"(1) le obtain url where page: "renderPage pdf i = Some url"
    by (subst (asm) renderPages.simps) (auto simp: Let_def split: option.splits)
  show ?case
  proof (cases "j = i")
    case True
    with page show ?thesis by simp
  next
    case False
    with "1.prems" have "i + 1 \<le> j" by simp
    moreover from "1.prems"(1) le page
    have "snd (renderPages f pdf (i + 1)
                 (parts @ [InlineData (js ''image/jpeg'') (index (split COMMA url) 1)])) = Fulfilled ps"
      by (subst (asm) renderPages.simps) (simp add: Let_def)
    ultimately show ?thesis
      using "1.IH" [OF le refl page refl] "1.prems"(3) by blast
  qed
qed

lemma renderPages_not_Pending: "snd (renderPages f pdf i parts) \<noteq> Pending"
proof (induction f pdf i parts rule: renderPages.induct)
  case (1 f pdf i parts)
  then show ?case
    by (subst renderPages.simps) (auto simp: Let_def split: option.splits)
qed

lemma pdf_Fulfilled:
  assumes "type f = js ''application/pdf''"
    and "snd (fileToGenerativePart env f) = Fulfilled ps"
  shows "\<exists>b pdf ds. bytes f = Some b \<and> getDocument env b = Some pdf
           \<and> length ds = numPages pdf \<and> ps = map (InlineData (js ''image/jpeg'')) ds"
proof -
  from assms obtain b pdf where
    b: "bytes f = Some b" and pdf: "getDocument env b = Some pdf"
    and r: "snd (renderPages f pdf 1 []) = Fulfilled ps"
    by (auto simp: fileToGenerativePart_def Let_def split: outcome.splits option.splits)
  define url where "url j = the (renderPage pdf j)" for j
  have "\<forall>j. 1 \<le> j \<and> j \<le> numPages pdf \<longrightarrow> renderPage pdf j = Some (url j)"
    using renderPages_Fulfilled [OF r] by (auto simp: url_def)
  from renderPages_ok [OF this, of f "[]"] r
  have "ps = map (InlineData (js ''image/jpeg''))
               (map (\<lambda>j. index (split COMMA (url j)) 1) [1..<Suc (numPages pdf)])"
    by (simp del: upt_Suc add: comp_def)
  with b pdf show ?thesis
    by (intro exI [of _ b] exI [of _ pdf]
              exI [of _ "map (\<lambda>j. index (split COMMA (url j)) 1) [1..<Suc (numPages pdf)]"])
       (simp del: upt_Suc)
qed

text \<open>
  C5. A PDF whose \<open>N\<close> pages all render gives exactly \<open>N\<close> parts, page 1 to page
  \<open>N\<close> in this order, each of type \<^verbatim>\<open>image/jpeg\<close>, and the pages are fetched
  in the order 1 to \<open>N\<close>. A file of any other type whose bytes are read gives exactly
  one part, of the type the file declares. Whenever a render is fulfilled at all, a PDF
  has given as many JPEG parts as it has pages and any other file a single part of its
  own type.
\<close>

theorem fileToGenerativePart_pages:
  "(type f = js ''application/pdf'' \<longrightarrow> awaitGetPdfJs env = Fulfilled lib \<longrightarrow>
      bytes f = Some b \<longrightarrow> getDocument env b = Some pdf \<longrightarrow>
      (\<forall>i. 1 \<le> i \<and> i \<le> numPages pdf \<longrightarrow> renderPage pdf i = Some (url i)) \<longrightarrow>
        snd (fileToGenerativePart env f) =
          Fulfilled (map (\<lambda>i. InlineData (js ''image/jpeg'') (index (split COMMA (url i)) 1))
                         [1..<Suc (numPages pdf)])
        \<and> pages_attempted (fst (fileToGenerativePart env f)) = [1..<Suc (numPages pdf)])
   \<and> (type f \<noteq> js ''application/pdf'' \<longrightarrow> bytes f = Some b \<longrightarrow>
        snd (fileToGenerativePart env f) =
          Fulfilled [InlineData (type f)
                       (index (split COMMA (readAsDataURL env (type f) b)) 1)])
   \<and> (snd (fileToGenerativePart env f) = Fulfilled ps \<longrightarrow>
        (if type f = js ''application/pdf''
         then \<exists>b pdf ds. bytes f = Some b \<and> getDocument env b = Some pdf
                \<and> length ds = numPages pdf \<and> ps = map (InlineData (js ''image/jpeg'')) ds
         else \<exists>d. ps = [InlineData (type f) d]))"
proof (intro conjI impI)
  assume "type f = js ''application/pdf''" "awaitGetPdfJs env = Fulfilled lib"
    "bytes f = Some b" "getDocument env b = Some pdf"
    and pages: "\<forall>i. 1 \<le> i \<and> i \<le> numPages pdf \<longrightarrow> renderPage pdf i = Some (url i)"
  then have eq: "fileToGenerativePart env f =
      ([SetLoadingMessage (LoadingLibrary (name f)), SetLoadingMessage (ProcessingPDF (name f)),
        GetDocument (name f)] @ fst (renderPages f pdf 1 []), snd (renderPages f pdf 1 []))"
    by (simp add: fileToGenerativePart_def Let_def)
  from renderPages_ok [OF pages, of f "[]"] eq
  show "snd (fileToGenerativePart env f) =
          Fulfilled (map (\<lambda>i. InlineData (js ''image/jpeg'') (index (split COMMA (url i)) 1))
                         [1..<Suc (numPages pdf)])"
    by (simp del: upt_Suc)
  from renderPages_ok [OF pages, of f "[]"] eq
  show "pages_attempted (fst (fileToGenerativePart env f)) = [1..<Suc (numPages pdf)]"
    by (simp add: pages_attempted_def del: upt_Suc)
next
  assume "type f \<noteq> js ''application/pdf''" "bytes f = Some b"
  then show "snd (fileToGenerativePart env f) =
          Fulfilled [InlineData (type f)
                       (index (split COMMA (readAsDataURL env (type f) b)) 1)]"
    by (simp add: fileToGenerativePart_def Let_def)
next
  assume r: "snd (fileToGenerativePart env f) = Fulfilled ps"
  show "if type f = js ''application/pdf''
         then \<exists>b pdf ds. bytes f = Some b \<and> getDocument env b = Some pdf
                \<and> length ds = numPages pdf \<and> ps = map (InlineData (js ''image/jpeg'')) ds
         else \<exists>d. ps = [InlineData (type f) d]"
  proof (cases "type f = js ''application/pdf''")
    case True
    with pdf_Fulfilled [OF True r] show ?thesis by simp
  next
    case False
    with r show ?thesis
      by (auto simp: fileToGenerativePart_def Let_def split: option.splits)
  qed
qed


theorem fileToGenerativePart_pages_witness:
  "type statement_pdf = js ''application/pdf'' \<and> awaitGetPdfJs sample_browser = Fulfilled 0
   \<and> bytes statement_pdf = Some [1, 2, 3]
   \<and> getDocument sample_browser [1, 2, 3] = Some (PDFDocumentProxy 2 (\<lambda>i. Some (sample_page i)))
   \<and> snd (fileToGenerativePart sample_browser statement_pdf) =
       Fulfilled [InlineData (js ''image/jpeg'') (Some [0x41]),
                  InlineData (js ''image/jpeg'') (Some [0x42])]
   \<and> pages_attempted (fst (fileToGenerativePart sample_browser statement_pdf)) = [1, 2]
   \<and> type scan_png \<noteq> js ''application/pdf'' \<and> bytes scan_png = Some [0, 1]
   \<and> snd (fileToGenerativePart sample_browser scan_png) =
       Fulfilled [InlineData (js ''image/png'') (Some [0x41, 0x42])]"
proof -
  have h1: "type statement_pdf = js ''application/pdf''" by (simp add: statement_pdf_def)
  have h2: "awaitGetPdfJs sample_browser = Fulfilled 0" by (simp add: sample_browser_def)
  have h3: "bytes statement_pdf = Some [1, 2, 3]" by (simp add: statement_pdf_def)
  have h4: "getDocument sample_browser [1, 2, 3] = Some (PDFDocumentProxy 2 (\<lambda>i. Some (sample_page i)))"
    by (simp add: sample_browser_def sample_pdf_def)
  have h5: "\<forall>i. 1 \<le> i \<and> i \<le> numPages (PDFDocumentProxy 2 (\<lambda>i. Some (sample_page i))) \<longrightarrow>
              renderPage (PDFDocumentProxy 2 (\<lambda>i. Some (sample_page i))) i = Some (sample_page i)"
    by simp
  have h6: "type scan_png \<noteq> js ''application/pdf''" by (simp add: scan_png_def js_def)
  have h7: "bytes scan_png = Some [0, 1]" by (simp add: scan_png_def)
  have n: "numPages (PDFDocumentProxy 2 (\<lambda>i. Some (sample_page i))) = 2" by simp
  have e0: "[1..<Suc 2] = [1, 2]" by (simp add: upt_rec)
  have e1: "map (\<lambda>i. InlineData (js ''image/jpeg'') (index (split COMMA (sample_page i)) 1)) [1, 2]
            = [InlineData (js ''image/jpeg'') (Some [0x41]), InlineData (js ''image/jpeg'') (Some [0x42])]"
    by (simp add: sample_page_def js_def COMMA_def index_def)
  have e2: "index (split COMMA (readAsDataURL sample_browser (js ''image/png'') [0, 1])) 1
              = Some [0x41, 0x42]"
    by (simp add: sample_browser_def js_def COMMA_def index_def)
  have e3: "type scan_png = js ''image/png''" by (simp add: scan_png_def)
  from fileToGenerativePart_pages [of statement_pdf sample_browser 0 "[1, 2, 3]"
         "PDFDocumentProxy 2 (\<lambda>i. Some (sample_page i))" sample_page] h1 h2 h3 h4 h5
  have r1: "snd (fileToGenerativePart sample_browser statement_pdf) =
              Fulfilled (map (\<lambda>i. InlineData (js ''image/jpeg'') (index (split COMMA (sample_page i)) 1))
                             [1..<Suc (numPages (PDFDocumentProxy 2 (\<lambda>i. Some (sample_page i))))])
            \<and> pages_attempted (fst (fileToGenerativePart sample_browser statement_pdf))
                = [1..<Suc (numPages (PDFDocumentProxy 2 (\<lambda>i. Some (sample_page i))))]"
    by blast
  from fileToGenerativePart_pages [of scan_png sample_browser _ "[0, 1]"] h6 h7
  have r2: "snd (fileToGenerativePart sample_browser scan_png) =
          Fulfilled [InlineData (type scan_png)
                       (index (split COMMA (readAsDataURL sample_browser (type scan_png) [0, 1])) 1)]"
    by blast
  from r1 have r1': "snd (fileToGenerativePart sample_browser statement_pdf) =
       Fulfilled [InlineData (js ''image/jpeg'') (Some [0x41]),
                  InlineData (js ''image/jpeg'') (Some [0x42])]
     \<and> pages_attempted (fst (fileToGenerativePart sample_browser statement_pdf)) = [1, 2]"
    unfolding n e0 e1 .
  from r2 have r2': "snd (fileToGenerativePart sample_browser scan_png) =
       Fulfilled [InlineData (js ''image/png'') (Some [0x41, 0x42])]"
    unfolding e3 e2 .
  from h1 h2 h3 h4 h6 h7 r1' r2' show ?thesis by blast
qed

lemma collect_single_Rejected:
  "collect [Rejected e] sched [None] = (if 0 \<in> set sched then Rejected e else Pending)"
  by (induction sched) auto

lemma imageParts_Fulfilled_all:
  assumes "imageParts env files sched = Fulfilled parts" and "f \<in> set files"
  shows "\<exists>ps. snd (fileToGenerativePart env f) = Fulfilled ps"
proof -
  from assms(1) obtain arrays where
    "Promise_all (map (\<lambda>f. snd (fileToGenerativePart env f)) files) sched = Fulfilled arrays"
    by (auto simp: imageParts_def Let_def split: outcome.splits)
  then have "map (\<lambda>f. snd (fileToGenerativePart env f)) files = map Fulfilled arrays"
    by (rule Promise_all_Fulfilled_inputs)
  then have "snd (fileToGenerativePart env f) \<in> set (map Fulfilled arrays)"
    using assms(2) by (metis (no_types, lifting) image_eqI list.set_map)
  then show ?thesis by auto
qed

lemma processStatementFiles_not_rendered:
  assumes "\<forall>parts. imageParts env files sched \<noteq> Fulfilled parts"
  shows "fst (processStatementFiles env files sched) = []
         \<and> (\<forall>ts. snd (processStatementFiles env files sched) \<noteq> Fulfilled ts)"
  using assms by (cases "imageParts env files sched") (auto simp: processStatementFiles_def)

lemma imageParts_Nil: "imageParts env [] sched = Fulfilled []"
  by (simp add: imageParts_def Promise_all_Nil)

lemma service_calls_processStatementFiles:
  "service_calls (fst (processStatementFiles env files sched)) =
     (case imageParts env files sched of
        Fulfilled parts \<Rightarrow> if parts = [] then [] else [parts @ [TextPart prompt]]
      | _ \<Rightarrow> [])"
  by (auto simp: processStatementFiles_def service_calls_def Let_def
           split: outcome.splits response.splits thrown.splits option.splits sum.splits)

text \<open>
  C2. When the renders give no page at all, and in particular when no file was
  submitted, the run is rejected with EmptyBatchError and has made no call of the
  extraction service. No run ever sends a request that has no page in it.
\<close>

theorem empty_batch_never_sent:
  assumes "files = [] \<or> imageParts env files sched = Fulfilled []"
  shows "processStatementFiles env files sched = ([], Rejected EmptyBatchError)
         \<and> service_calls (fst (processStatementFiles env files sched)) = []
         \<and> (\<forall>env' files' sched'. [TextPart prompt] \<notin>
               set (service_calls (fst (processStatementFiles env' files' sched'))))"
proof -
  from assms have empty: "imageParts env files sched = Fulfilled []"
    by (auto simp: imageParts_Nil)
  then have r: "processStatementFiles env files sched = ([], Rejected EmptyBatchError)"
    by (simp add: processStatementFiles_def)
  have "[TextPart prompt] \<notin> set (service_calls (fst (processStatementFiles env' files' sched')))"
    for env' files' sched'
    by (simp add: service_calls_processStatementFiles split: outcome.splits)
  with r show ?thesis by (simp add: service_calls_def)
qed

theorem empty_batch_never_sent_witness:
  "([blank_pdf] = [] \<or> imageParts sample_browser [blank_pdf] [0] = Fulfilled [])
   \<and> processStatementFiles sample_browser [blank_pdf] [0] = ([], Rejected EmptyBatchError)
   \<and> processStatementFiles sample_browser [] [] = ([], Rejected EmptyBatchError)"
proof -
  have h: "imageParts sample_browser [blank_pdf] [0] = Fulfilled []"
    by (subst imageParts_def, subst fileToGenerativePart_def, subst renderPages.simps)
       (simp add: blank_pdf_def sample_browser_def sample_pdf_def Promise_all_def)
  from empty_batch_never_sent [of "[blank_pdf]" sample_browser "[0]"]
       empty_batch_never_sent [of "[]" sample_browser "[]"] h
  show ?thesis by simp
qed

text \<open>
  C6. When every file renders, then in whatever order the renders complete, the
  assembled parts are the pages of the first file, then those of the second, and so
  on, each file's pages in their own order; this is the batch the service receives.
\<close>

theorem imageParts_in_submission_order:
  assumes "complete (length files) sched"
    and "map (\<lambda>f. snd (fileToGenerativePart env f)) files = map Fulfilled pss"
  shows "imageParts env files sched = Fulfilled (concat pss)
         \<and> (concat pss \<noteq> [] \<longrightarrow>
              service_calls (fst (processStatementFiles env files sched))
                = [concat pss @ [TextPart prompt]])"
proof -
  from assms(2) have "length pss = length files"
    by (metis length_map)
  with assms(1) have "complete (length pss) sched" by simp
  then have "Promise_all (map Fulfilled pss) sched = Fulfilled pss"
    by (rule Promise_all_fulfilled)
  with assms(2) have "imageParts env files sched = Fulfilled (concat pss)"
    by (simp add: imageParts_def)
  then show ?thesis by (simp add: service_calls_processStatementFiles)
qed


lemma sample_renders:
  "snd (fileToGenerativePart sample_browser statement_pdf) =
     Fulfilled [InlineData (js ''image/jpeg'') (Some [0x41]), InlineData (js ''image/jpeg'') (Some [0x42])]"
  "snd (fileToGenerativePart sample_browser scan_png) =
     Fulfilled [InlineData (js ''image/png'') (Some [0x41, 0x42])]"
  by code_simp+

theorem imageParts_in_submission_order_witness:
  "complete (length [statement_pdf, scan_png]) [1, 0]
   \<and> map (\<lambda>f. snd (fileToGenerativePart sample_browser f)) [statement_pdf, scan_png] =
       map Fulfilled [[InlineData (js ''image/jpeg'') (Some [0x41]),
                       InlineData (js ''image/jpeg'') (Some [0x42])],
                      [InlineData (js ''image/png'') (Some [0x41, 0x42])]]
   \<and> imageParts sample_browser [statement_pdf, scan_png] [1, 0] =
       Fulfilled [InlineData (js ''image/jpeg'') (Some [0x41]),
                  InlineData (js ''image/jpeg'') (Some [0x42]),
                  InlineData (js ''image/png'') (Some [0x41, 0x42])]"
proof -
  have h1: "complete (length [statement_pdf, scan_png]) [1, 0]"
    by (simp add: complete_def upt_rec)
  have h2: "map (\<lambda>f. snd (fileToGenerativePart sample_browser f)) [statement_pdf, scan_png] =
       map Fulfilled [[InlineData (js ''image/jpeg'') (Some [0x41]),
                       InlineData (js ''image/jpeg'') (Some [0x42])],
                      [InlineData (js ''image/png'') (Some [0x41, 0x42])]]"
    by (simp add: sample_renders)
  from imageParts_in_submission_order [OF h1 h2] h1 h2 show ?thesis by simp
qed

text \<open>
  C7. For a PDF that the backend cannot open, no page is ever fetched; once the backend
  is there, the render is rejected with DocumentOpenError carrying the name of the
  file, and so is the run on that file alone. A run on any batch that contains such a
  file never calls the extraction service and never returns transactions.
\<close>

theorem corrupt_pdf_fails_before_pages:
  assumes "type f = js ''application/pdf''" and "bytes f = Some b" and "getDocument env b = None"
  shows "pages_attempted (fst (fileToGenerativePart env f)) = []
         \<and> (awaitGetPdfJs env = Fulfilled lib \<longrightarrow>
              snd (fileToGenerativePart env f) = Rejected (DocumentOpenError (name f))
              \<and> (0 \<in> set sched \<longrightarrow>
                   processStatementFiles env [f] sched
                     = ([], Rejected (DocumentOpenError (name f)))))
         \<and> (f \<in> set files \<longrightarrow>
              service_calls (fst (processStatementFiles env files sched')) = []
              \<and> (\<forall>ts. snd (processStatementFiles env files sched') \<noteq> Fulfilled ts))"
proof (intro conjI impI)
  show "pages_attempted (fst (fileToGenerativePart env f)) = []"
    using assms
    by (auto simp: fileToGenerativePart_def pages_attempted_def Let_def split: outcome.splits)
next
  assume ready: "awaitGetPdfJs env = Fulfilled lib"
  with assms
  show r: "snd (fileToGenerativePart env f) = Rejected (DocumentOpenError (name f))"
    by (simp add: fileToGenerativePart_def Let_def)
  assume "0 \<in> set sched"
  with r show "processStatementFiles env [f] sched = ([], Rejected (DocumentOpenError (name f)))"
    by (simp add: processStatementFiles_def imageParts_def Promise_all_def collect_single_Rejected)
next
  assume mem: "f \<in> set files"
  have nf: "\<forall>ps. snd (fileToGenerativePart env f) \<noteq> Fulfilled ps"
    using assms by (auto simp: fileToGenerativePart_def Let_def split: outcome.splits)
  have "\<forall>parts. imageParts env files sched' \<noteq> Fulfilled parts"
    using imageParts_Fulfilled_all [OF _ mem] nf by blast
  from processStatementFiles_not_rendered [OF this]
  show "service_calls (fst (processStatementFiles env files sched')) = []"
    and "\<forall>ts. snd (processStatementFiles env files sched') \<noteq> Fulfilled ts"
    by (simp_all add: service_calls_def)
qed

theorem corrupt_pdf_fails_before_pages_witness:
  "type corrupt_pdf = js ''application/pdf'' \<and> bytes corrupt_pdf = Some []
   \<and> getDocument sample_browser [] = None \<and> awaitGetPdfJs sample_browser = Fulfilled 0
   \<and> (0::nat) \<in> set [0] \<and> corrupt_pdf \<in> set [scan_png, corrupt_pdf]
   \<and> pages_attempted (fst (fileToGenerativePart sample_browser corrupt_pdf)) = []
   \<and> processStatementFiles sample_browser [corrupt_pdf] [0]
       = ([], Rejected (DocumentOpenError (js ''corrupt.pdf'')))
   \<and> service_calls (fst (processStatementFiles sample_browser [scan_png, corrupt_pdf] [0, 1])) = []"
proof -
  have h1: "type corrupt_pdf = js ''application/pdf''" by (simp add: corrupt_pdf_def)
  have h2: "bytes corrupt_pdf = Some []" by (simp add: corrupt_pdf_def)
  have h3: "getDocument sample_browser [] = None" by (simp add: sample_browser_def sample_pdf_def)
  have h4: "awaitGetPdfJs sample_browser = Fulfilled 0" by (simp add: sample_browser_def)
  have n: "name corrupt_pdf = js ''corrupt.pdf''" by (simp add: corrupt_pdf_def)
  from corrupt_pdf_fails_before_pages [OF h1 h2 h3, of 0 "[0]" "[scan_png, corrupt_pdf]" "[0, 1]"]
    h1 h2 h3 h4 n
  show ?thesis by simp
qed

text \<open>
  C8. The render of an image whose bytes cannot be read: the code raises no error, the
  promise stays pending, and so does the run.
\<close>

theorem unreadable_image_never_settles:
  "fileToGenerativePart sample_browser unreadable_png = ([], Pending)
   \<and> processStatementFiles sample_browser [unreadable_png] [0] = ([], Pending)"
  by (simp add: fileToGenerativePart_def processStatementFiles_def imageParts_def Promise_all_def
        unreadable_png_def js_def)

section \<open>Properties of the rendering backend\<close>

lemma single_flight_cases:
  assumes "single_flight w"
  obtains "loading w = []"
  | p where "loading w = [p]" "pdfjsLibPromise w = Some p" "pdfjsLib w = None"
      "pdfjs_dist_build_pdf w = None" "p < length (promises w)" "promises w ! p = Pending"
  using assms by (auto simp: single_flight_def split: list.splits)

lemma single_flight_getPdfJs: "single_flight w \<Longrightarrow> single_flight (snd (getPdfJs w))"
  by (erule single_flight_cases)
     (auto simp: getPdfJs_def single_flight_def Let_def nth_append split: option.splits)

lemma single_flight_onload: "single_flight w \<Longrightarrow> single_flight (script_onload p installed w)"
  by (erule single_flight_cases)
     (auto simp: script_onload_def single_flight_def Let_def split: option.splits)

lemma single_flight_onerror: "single_flight w \<Longrightarrow> single_flight (script_onerror p w)"
  by (erule single_flight_cases) (auto simp: script_onerror_def single_flight_def)

lemma single_flight_step: "single_flight w \<Longrightarrow> single_flight (do_step w s)"
  by (cases s) (simp_all add: single_flight_getPdfJs single_flight_onload single_flight_onerror)

lemma single_flight_run: "single_flight w \<Longrightarrow> single_flight (run w steps)"
  unfolding run_def by (induction steps arbitrary: w) (simp_all add: single_flight_step)

lemma fresh_single_flight: "fresh w \<Longrightarrow> single_flight w"
  by (simp add: fresh_def single_flight_def)

lemma getPdfJs_in_flight:
  assumes "single_flight w" and "loading w \<noteq> []"
  shows "\<exists>p. loading w = [p] \<and> getPdfJs w = (p, w) \<and> promises w ! p = Pending"
  using assms by (auto elim!: single_flight_cases simp: getPdfJs_def)

lemma settle_keeps:
  "p < length ps \<Longrightarrow> ps ! p \<noteq> Pending \<Longrightarrow>
     p < length (settle q out ps) \<and> settle q out ps ! p = ps ! p"
  by (auto simp: settle_def nth_list_update)

lemma settled_step:
  assumes "p < length (promises w)" and "promises w ! p \<noteq> Pending"
  shows "p < length (promises (do_step w s)) \<and> promises (do_step w s) ! p = promises w ! p"
proof (cases s)
  case Call
  with assms show ?thesis
    by (auto simp: getPdfJs_def Let_def nth_append split: option.splits)
next
  case (ScriptLoad q installed)
  with settle_keeps [OF assms] assms show ?thesis
    by (auto simp: script_onload_def Let_def split: option.splits)
next
  case (ScriptError q)
  with settle_keeps [OF assms] assms show ?thesis
    by (auto simp: script_onerror_def)
qed

lemma settled_run:
  "p < length (promises w) \<Longrightarrow> promises w ! p \<noteq> Pending \<Longrightarrow>
     p < length (promises (run w steps)) \<and> promises (run w steps) ! p = promises w ! p"
  unfolding run_def
proof (induction steps arbitrary: w)
  case Nil
  then show ?case by simp
next
  case (Cons s steps)
  from settled_step [OF Cons.prems, of s]
  have len: "p < length (promises (do_step w s))"
    and same: "promises (do_step w s) ! p = promises w ! p" by simp_all
  from same Cons.prems(2) have "promises (do_step w s) ! p \<noteq> Pending" by simp
  from Cons.IH [OF len this] same show ?case by simp
qed

lemma flight_step:
  assumes "single_flight w" and "loading w = [p]"
  shows "do_step w s = w \<or> (loading (do_step w s) = [] \<and> promises (do_step w s) ! p \<noteq> Pending)"
proof -
  from assms have p: "p < length (promises w)" "promises w ! p = Pending"
    and call: "getPdfJs w = (p, w)"
    by (auto elim!: single_flight_cases simp: getPdfJs_def)
  show ?thesis
  proof (cases s)
    case Call
    with call show ?thesis by simp
  next
    case (ScriptLoad q installed)
    with assms(2) p show ?thesis
      by (auto simp: script_onload_def settle_def Let_def split: option.splits)
  next
    case (ScriptError q)
    with assms(2) p show ?thesis
      by (auto simp: script_onerror_def settle_def)
  qed
qed

lemma call_joins_flight:
  assumes "single_flight w" and "loading (snd (getPdfJs w)) \<noteq> []"
  shows "loading (snd (getPdfJs w)) = [fst (getPdfJs w)]
         \<and> pdfjsLibPromise (snd (getPdfJs w)) = Some (fst (getPdfJs w))
         \<and> fst (getPdfJs w) < length (promises (snd (getPdfJs w)))
         \<and> promises (snd (getPdfJs w)) ! fst (getPdfJs w) = Pending
         \<and> appended (snd (getPdfJs w)) = (if loading w = [] then appended w + 1 else appended w)"
  using assms(1)
proof (cases rule: single_flight_cases)
  case 1
  with assms(2) show ?thesis
    by (auto simp: getPdfJs_def Let_def nth_append split: option.splits if_splits)
next
  case (2 q)
  then have "getPdfJs w = (q, w)" by (simp add: getPdfJs_def)
  with 2 show ?thesis by simp
qed

text \<open>
  C9. From a freshly loaded module and after any sequence of calls and script events:
  at most one script element is loading; while one is loading, a call returns the
  promise of that script and changes nothing (no second script element), and the next
  step either changes nothing or ends the loading and settles that promise; a settled
  promise keeps its outcome through all later steps. Every call after which a script is
  loading, the call that starts the load included, returns the promise of that script,
  which is the one the module variable holds and is pending; the call appends a script
  element only when none was loading before it.
\<close>

theorem getPdfJs_single_flight:
  assumes "fresh w0"
  shows "length (loading (run w0 steps)) \<le> 1
    \<and> (loading (run w0 steps) \<noteq> [] \<longrightarrow>
         (\<exists>p. loading (run w0 steps) = [p]
              \<and> getPdfJs (run w0 steps) = (p, run w0 steps)
              \<and> promises (run w0 steps) ! p = Pending
              \<and> (do_step (run w0 steps) s = run w0 steps
                   \<or> loading (do_step (run w0 steps) s) = []
                     \<and> promises (do_step (run w0 steps) s) ! p \<noteq> Pending)))
    \<and> (p < length (promises (run w0 steps)) \<longrightarrow> promises (run w0 steps) ! p \<noteq> Pending \<longrightarrow>
         promises (run (run w0 steps) later) ! p = promises (run w0 steps) ! p)
    \<and> (loading (snd (getPdfJs (run w0 steps))) \<noteq> [] \<longrightarrow>
         loading (snd (getPdfJs (run w0 steps))) = [fst (getPdfJs (run w0 steps))]
         \<and> pdfjsLibPromise (snd (getPdfJs (run w0 steps))) = Some (fst (getPdfJs (run w0 steps)))
         \<and> fst (getPdfJs (run w0 steps)) < length (promises (snd (getPdfJs (run w0 steps))))
         \<and> promises (snd (getPdfJs (run w0 steps))) ! fst (getPdfJs (run w0 steps)) = Pending
         \<and> appended (snd (getPdfJs (run w0 steps)))
             = (if loading (run w0 steps) = [] then appended (run w0 steps) + 1
                else appended (run w0 steps)))"
proof -
  from assms have inv: "single_flight (run w0 steps)"
    by (intro single_flight_run fresh_single_flight)
  then have "length (loading (run w0 steps)) \<le> 1"
    by (auto elim: single_flight_cases)
  moreover have "loading (run w0 steps) \<noteq> [] \<longrightarrow>
         (\<exists>p. loading (run w0 steps) = [p]
              \<and> getPdfJs (run w0 steps) = (p, run w0 steps)
              \<and> promises (run w0 steps) ! p = Pending
              \<and> (do_step (run w0 steps) s = run w0 steps
                   \<or> loading (do_step (run w0 steps) s) = []
                     \<and> promises (do_step (run w0 steps) s) ! p \<noteq> Pending))"
  proof
    assume "loading (run w0 steps) \<noteq> []"
    from getPdfJs_in_flight [OF inv this] obtain q where
      q: "loading (run w0 steps) = [q]" "getPdfJs (run w0 steps) = (q, run w0 steps)"
         "promises (run w0 steps) ! q = Pending"
      by blast
    with flight_step [OF inv q(1), of s] show "\<exists>p. loading (run w0 steps) = [p]
              \<and> getPdfJs (run w0 steps) = (p, run w0 steps)
              \<and> promises (run w0 steps) ! p = Pending
              \<and> (do_step (run w0 steps) s = run w0 steps
                   \<or> loading (do_step (run w0 steps) s) = []
                     \<and> promises (do_step (run w0 steps) s) ! p \<noteq> Pending)"
      by blast
  qed
  moreover have "p < length (promises (run w0 steps)) \<longrightarrow> promises (run w0 steps) ! p \<noteq> Pending \<longrightarrow>
         promises (run (run w0 steps) later) ! p = promises (run w0 steps) ! p"
    using settled_run by blast
  moreover note call_joins_flight [OF inv]
  ultimately show ?thesis by blast
qed

lemma first_call_blank:
  "getPdfJs blank = (0, blank\<lparr>promises := [Pending], appended := 1, loading := [0],
                               pdfjsLibPromise := Some 0\<rparr>)"
  by (simp add: getPdfJs_def blank_def)

theorem getPdfJs_single_flight_witness:
  "fresh blank
   \<and> loading (snd (getPdfJs (run blank []))) \<noteq> []
   \<and> fst (getPdfJs (run blank [])) = 0
   \<and> loading (snd (getPdfJs (run blank []))) = [0]
   \<and> appended (snd (getPdfJs (run blank []))) = 1
   \<and> loading (run blank [Call, Call, Call]) = [0]
   \<and> appended (run blank [Call, Call, Call]) = 1
   \<and> fst (getPdfJs (run blank [Call, Call, Call])) = 0
   \<and> promises (run blank [Call, Call, ScriptLoad 0 (Some 7)]) ! 0 = Fulfilled 7
   \<and> promises (run blank [Call, Call, ScriptError 0]) ! 0 = Rejected LibraryLoadError
   \<and> promises (run (run blank [Call, Call, ScriptError 0]) [Call, ScriptLoad 1 (Some 7)]) ! 0
       = Rejected LibraryLoadError"
proof -
  have h: "fresh blank" by (simp add: fresh_def blank_def)
  have b: "run blank [] = blank" by (simp add: run_def)
  have e0: "loading (snd (getPdfJs (run blank []))) \<noteq> []"
    and a0: "appended (snd (getPdfJs (run blank []))) = 1"
    by (simp_all add: b first_call_blank)
  have e1: "loading (run blank [Call, Call, Call]) = [0]"
    and e2: "appended (run blank [Call, Call, Call]) = 1"
    by (simp_all add: run_def getPdfJs_def blank_def)
  have e3: "promises (run blank [Call, Call, ScriptError 0]) = [Rejected LibraryLoadError]"
    by (simp add: run_def getPdfJs_def blank_def script_onerror_def settle_def)
  have e4: "promises (run blank [Call, Call, ScriptLoad 0 (Some 7)]) ! 0 = Fulfilled 7"
    by (simp add: run_def getPdfJs_def blank_def script_onload_def settle_def Let_def)
  from getPdfJs_single_flight [OF h, of "[]" Call 0 "[]"] e0
  have first: "loading (snd (getPdfJs (run blank []))) = [fst (getPdfJs (run blank []))]"
    by blast
  have l0: "loading (snd (getPdfJs (run blank []))) = [0]"
    by (simp add: b first_call_blank)
  from first l0 have f0: "fst (getPdfJs (run blank [])) = 0" by simp
  from getPdfJs_single_flight [OF h, of "[Call, Call, Call]" Call 0 "[]"] e1
  have "fst (getPdfJs (run blank [Call, Call, Call])) = 0" by auto
  moreover
  from getPdfJs_single_flight [OF h, of "[Call, Call, ScriptError 0]" Call 0 "[Call, ScriptLoad 1 (Some 7)]"] e3
  have "promises (run (run blank [Call, Call, ScriptError 0]) [Call, ScriptLoad 1 (Some 7)]) ! 0
       = Rejected LibraryLoadError" by simp
  ultimately show ?thesis using h e0 a0 f0 l0 e1 e2 e3 e4 by simp
qed

text \<open>
  C3. The script loads but leaves no library object on the window: the promise is
  rejected and \<^verbatim>\<open>pdfjsLibPromise\<close> still holds it, so the next call returns the same
  rejected promise and appends no script. After the \<^verbatim>\<open>error\<close> event, in contrast,
  the variable is reset and the next call starts a new load.
\<close>

theorem getPdfJs_latches_when_library_missing:
  "(let (p1, w1) = getPdfJs blank; w2 = script_onload p1 None w1; (p2, w3) = getPdfJs w2
    in promises w2 ! p1 = Rejected LibraryNotFoundError \<and> pdfjsLibPromise w2 = Some p1
       \<and> p2 = p1 \<and> promises w3 ! p2 = Rejected LibraryNotFoundError
       \<and> appended w3 = 1 \<and> loading w3 = [])
   \<and> (let (p1, w1) = getPdfJs blank; w2 = script_onerror p1 w1; (p2, w3) = getPdfJs w2
      in promises w2 ! p1 = Rejected LibraryLoadError \<and> pdfjsLibPromise w2 = None
         \<and> p2 \<noteq> p1 \<and> promises w3 ! p2 = Pending \<and> appended w3 = 2 \<and> loading w3 = [p2])"
  by (simp add: getPdfJs_def blank_def script_onload_def script_onerror_def settle_def Let_def)

end
